theory Spec2Isabelle
  imports Main
begin

section \<open>The sitemap tree exporter\<close>

text \<open>
  A shallow embedding of the metadata-driven site tree exporter: the script that walks the
  project directory, keeps the \<^verbatim>\<open>.html\<close> pages carrying
  \<^verbatim>\<open><meta name="sitemap" content="include">\<close> and writes the pruned tree to
  \<^verbatim>\<open>assets/data/tree.json\<close>.
\<close>

subsection \<open>JavaScript strings\<close>

text \<open>
  A JavaScript string is a sequence of UTF-16 code units. A code unit is a natural number
  (below \<open>0x10000\<close>); \<open>str\<close> turns an ASCII literal into code units.
\<close>

type_synonym jschar = nat
type_synonym jsstring = "jschar list"

definition str :: "string \<Rightarrow> jsstring" where
  "str s = map of_char s"

text \<open>The LineTerminator and WhiteSpace code points of ECMAScript (what \<^verbatim>\<open>.\<close>
  excludes, and what \<^verbatim>\<open>\s\<close> and \<^verbatim>\<open>trim\<close> take).\<close>

definition is_line_terminator :: "jschar \<Rightarrow> bool" where
  "is_line_terminator c = (c = 0x0A \<or> c = 0x0D \<or> c = 0x2028 \<or> c = 0x2029)"

definition is_white_space :: "jschar \<Rightarrow> bool" where
  "is_white_space c =
     (c = 0x09 \<or> c = 0x0B \<or> c = 0x0C \<or> c = 0x20 \<or> c = 0xA0 \<or> c = 0x1680 \<or>
      (0x2000 \<le> c \<and> c \<le> 0x200A) \<or> c = 0x202F \<or> c = 0x205F \<or> c = 0x3000 \<or>
      c = 0xFEFF \<or> is_line_terminator c)"

text \<open>
  \<^verbatim>\<open>Canonicalize\<close> of a regular expression with the \<^verbatim>\<open>i\<close> flag (and without
  \<^verbatim>\<open>u\<close>): the upper-case mapping of a code unit, except that a code unit from
  \<open>128\<close> on is never mapped below \<open>128\<close>. On ASCII this is the function below. Above
  ASCII the real mapping yields some code unit from \<open>128\<close> on, which differs from the
  canonical form of every character the patterns of this program contain (all ASCII), so
  the identity stands for it.
\<close>

definition canonicalize :: "jschar \<Rightarrow> jschar" where
  "canonicalize c = (if 0x61 \<le> c \<and> c \<le> 0x7A then c - 0x20 else c)"

definition trim :: "jsstring \<Rightarrow> jsstring" where
  "trim s = rev (dropWhile is_white_space (rev (dropWhile is_white_space s)))"

definition endsWith :: "jsstring \<Rightarrow> jsstring \<Rightarrow> bool" where
  "endsWith s suffix =
     (length suffix \<le> length s \<and> drop (length s - length suffix) s = suffix)"

subsection \<open>Regular expressions\<close>

text \<open>
  The fragment of the regular expression language the script uses, with the backtracking
  semantics of ECMAScript: \<open>rmatch\<close> returns every way the pattern can match at the
  start of the input, in the order the backtracking matcher tries them. A state is the
  input that is left and the text of capture group 1. A greedy quantifier tries one more
  iteration first, a lazy one tries to stop first; an iteration that consumes nothing is
  rejected, as the specification of the repeat matcher does.
\<close>

datatype rx =
    Chr jschar
  | AnyChar
  | Space
  | OneOf "jschar list"
  | Empty
  | Cat rx rx
  | Star rx
  | LazyStar rx
  | Opt rx
  | Group rx

type_synonym mstate = "jsstring \<times> jsstring option"

definition char_match :: "bool \<Rightarrow> jschar \<Rightarrow> jschar \<Rightarrow> bool" where
  "char_match ic a ch = (if ic then canonicalize a = canonicalize ch else a = ch)"

definition step1 :: "(jschar \<Rightarrow> bool) \<Rightarrow> mstate \<Rightarrow> mstate list" where
  "step1 p st = (case fst st of [] \<Rightarrow> [] | ch # rest \<Rightarrow> if p ch then [(rest, snd st)] else [])"

fun rmatch :: "bool \<Rightarrow> rx \<Rightarrow> mstate \<Rightarrow> mstate list" where
  "rmatch ic (Chr a) st = step1 (char_match ic a) st"
| "rmatch ic AnyChar st = step1 (\<lambda>ch. \<not> is_line_terminator ch) st"
| "rmatch ic Space st = step1 is_white_space st"
| "rmatch ic (OneOf as) st = step1 (\<lambda>ch. list_ex (\<lambda>a. char_match ic a ch) as) st"
| "rmatch ic Empty st = [st]"
| "rmatch ic (Cat r1 r2) st = concat (map (rmatch ic r2) (rmatch ic r1 st))"
| "rmatch ic (Star r) st =
     concat (map (\<lambda>st'. if length (fst st') < length (fst st) then rmatch ic (Star r) st' else [])
                 (rmatch ic r st)) @ [st]"
| "rmatch ic (LazyStar r) st =
     st # concat (map (\<lambda>st'. if length (fst st') < length (fst st)
                              then rmatch ic (LazyStar r) st' else [])
                      (rmatch ic r st))"
| "rmatch ic (Opt r) st =
     filter (\<lambda>st'. length (fst st') < length (fst st)) (rmatch ic r st) @ [st]"
| "rmatch ic (Group r) st =
     map (\<lambda>st'. (fst st', Some (take (length (fst st) - length (fst st')) (fst st))))
         (rmatch ic r st)"

text \<open>\<^verbatim>\<open>r+\<close> is one \<open>r\<close> and then \<^verbatim>\<open>r*\<close>; a pattern is the sequence of its
  terms; a literal is the sequence of its characters.\<close>

definition Plus :: "rx \<Rightarrow> rx" where
  "Plus r = Cat r (Star r)"

definition seq :: "rx list \<Rightarrow> rx" where
  "seq rs = foldr Cat rs Empty"

definition lit :: "string \<Rightarrow> rx" where
  "lit s = seq (map (\<lambda>c. Chr (of_char c)) s)"

text \<open>
  \<^verbatim>\<open>RegExp.prototype.exec\<close> of a pattern without the \<^verbatim>\<open>g\<close> flag: the first
  match at the leftmost start position that has one. \<^verbatim>\<open>test\<close> says whether there
  is one.
\<close>

fun regexp_exec :: "bool \<Rightarrow> rx \<Rightarrow> jsstring \<Rightarrow> mstate option" where
  "regexp_exec ic r s =
     (case rmatch ic r (s, None) of
        st # _ \<Rightarrow> Some st
      | [] \<Rightarrow> (case s of [] \<Rightarrow> None | _ # rest \<Rightarrow> regexp_exec ic r rest))"

definition regexp_test :: "bool \<Rightarrow> rx \<Rightarrow> jsstring \<Rightarrow> bool" where
  "regexp_test ic r s = (regexp_exec ic r s \<noteq> None)"

subsection \<open>Title extractor and sitemap classifier\<close>

text \<open>\<^verbatim>\<open>/<title>(.*?)<\/title>/i\<close>\<close>

definition title_rx :: rx where
  "title_rx = seq [lit ''<title>'', Group (LazyStar AnyChar), lit ''</title>'']"

definition extractTitle :: "jsstring \<Rightarrow> jsstring option" where
  "extractTitle html =
     (case regexp_exec True title_rx html of
        None \<Rightarrow> None
      | Some m \<Rightarrow> map_option trim (snd m))"

text \<open>\<^verbatim>\<open>/<meta\s+name=["']sitemap["']\s+content=["']include["']\s*\/?>/i\<close>, and the same
  with \<^verbatim>\<open>exclude\<close>.\<close>

definition quotes :: "jschar list" where
  "quotes = [0x22, 0x27]"

definition sitemap_rx :: "string \<Rightarrow> rx" where
  "sitemap_rx v =
     seq [lit ''<meta'', Plus Space, lit ''name='', OneOf quotes, lit ''sitemap'', OneOf quotes,
          Plus Space, lit ''content='', OneOf quotes, lit v, OneOf quotes,
          Star Space, Opt (Chr 0x2F), Chr 0x3E]"

record sitemap_meta =
  "include" :: bool
  exclude :: bool

definition checkSitemapMeta :: "jsstring \<Rightarrow> sitemap_meta" where
  "checkSitemapMeta html =
     \<lparr> include = regexp_test True (sitemap_rx ''include'') html,
       exclude = regexp_test True (sitemap_rx ''exclude'') html \<rparr>"

subsection \<open>Paths\<close>

text \<open>
  \<^verbatim>\<open>path.join\<close> and \<^verbatim>\<open>path.basename\<close> of Node, in their POSIX form: \<open>join\<close>
  puts a slash between its non-empty arguments and normalises the result (empty and
  \<^verbatim>\<open>.\<close> segments go, a \<^verbatim>\<open>..\<close> segment takes the segment before it away);
  \<open>basename\<close> is the last segment, trailing slashes aside.
\<close>

definition slash :: jschar where
  "slash = 0x2F"

fun split_on :: "jschar \<Rightarrow> jsstring \<Rightarrow> jsstring list" where
  "split_on d [] = [[]]"
| "split_on d (c # cs) =
     (if c = d then [] # split_on d cs
      else (case split_on d cs of [] \<Rightarrow> [[c]] | seg # segs \<Rightarrow> (c # seg) # segs))"

fun join_with :: "jsstring \<Rightarrow> jsstring list \<Rightarrow> jsstring" where
  "join_with sep [] = []"
| "join_with sep [x] = x"
| "join_with sep (x # y # ys) = x @ sep @ join_with sep (y # ys)"

definition normalize_step :: "bool \<Rightarrow> jsstring list \<Rightarrow> jsstring \<Rightarrow> jsstring list" where
  "normalize_step allowAboveRoot res seg =
     (if seg = [] \<or> seg = str ''.'' then res
      else if seg = str ''..'' then
        (if res \<noteq> [] \<and> last res \<noteq> str ''..'' then butlast res
         else if allowAboveRoot then res @ [str ''..'']
         else res)
      else res @ [seg])"

definition normalizeString :: "jsstring \<Rightarrow> bool \<Rightarrow> jsstring" where
  "normalizeString p allowAboveRoot =
     join_with [slash] (foldl (normalize_step allowAboveRoot) [] (split_on slash p))"

definition path_normalize :: "jsstring \<Rightarrow> jsstring" where
  "path_normalize p =
     (if p = [] then str ''.''
      else
        (let isAbsolute = (hd p = slash);
             trailingSeparator = (last p = slash);
             q = normalizeString p (\<not> isAbsolute)
         in if q = [] then
              (if isAbsolute then [slash] else if trailingSeparator then str ''./'' else str ''.'')
            else (if isAbsolute then [slash] else []) @ q @
                 (if trailingSeparator then [slash] else [])))"

definition path_join :: "jsstring list \<Rightarrow> jsstring" where
  "path_join args =
     (let parts = filter (\<lambda>a. a \<noteq> []) args
      in if parts = [] then str ''.'' else path_normalize (join_with [slash] parts))"

definition path_basename :: "jsstring \<Rightarrow> jsstring" where
  "path_basename p =
     rev (takeWhile (\<lambda>c. c \<noteq> slash) (dropWhile (\<lambda>c. c = slash) (rev p)))"

text \<open>\<^verbatim>\<open>.replace(/\\/g, '/')\<close>\<close>

definition replace_backslashes :: "jsstring \<Rightarrow> jsstring" where
  "replace_backslashes s = map (\<lambda>c. if c = 0x5C then slash else c) s"

subsection \<open>The file system and the output tree\<close>

text \<open>
  What \<^verbatim>\<open>readdirSync(..., {withFileTypes: true})\<close> and \<^verbatim>\<open>readFileSync\<close> see below
  the scan root. A directory has a name, a flag saying whether it can be enumerated, and its
  entries in enumeration order; a regular file has a name and its text, \<open>None\<close> when
  reading it fails; a special file (a socket, say) has a name only; a symbolic link has a
  name and the file or directory it finally resolves to, \<open>None\<close> when it dangles. For
  the walk a link is neither a file nor a directory (\<^verbatim>\<open>isFile()\<close> and
  \<^verbatim>\<open>isDirectory()\<close> of its \<^verbatim>\<open>Dirent\<close> are false); opening a path goes through it.
\<close>

datatype dirent =
    Directory jsstring bool "dirent list"
  | File jsstring "jsstring option"
  | Other jsstring
  | Link jsstring "dirent option"

fun entry_name :: "dirent \<Rightarrow> jsstring" where
  "entry_name (Directory n r es) = n"
| "entry_name (File n c) = n"
| "entry_name (Other n) = n"
| "entry_name (Link n target) = n"

text \<open>A tree node: \<^verbatim>\<open>{name, children}\<close> for a directory,
  \<^verbatim>\<open>{name, path, title, sitemap}\<close> for an included page.\<close>

datatype node =
    Folder jsstring "node list"
  | Page jsstring jsstring jsstring bool

datatype error =
    ReaddirError jsstring
  | ReadFileError jsstring
  | WriteFileError jsstring

text \<open>The console: which method was called, and the message (its path or error; the
  wording of the message is left out).\<close>

datatype level = Log | Warn | Error

datatype message =
    Scanning
  | TitleMissing jsstring
  | Excluded jsstring
  | SitemapTagMissing jsstring
  | ExportComplete jsstring
  | ExportFailed error

type_synonym console = "(level \<times> message) list"

subsection \<open>The tree builder\<close>

text \<open>\<^verbatim>\<open>!title\<close> and \<^verbatim>\<open>title || entry.name\<close>: \<^verbatim>\<open>null\<close> and the empty string are
  falsy.\<close>

definition falsy :: "jsstring option \<Rightarrow> bool" where
  "falsy t = (case t of None \<Rightarrow> True | Some s \<Rightarrow> s = [])"

definition or_else :: "jsstring option \<Rightarrow> jsstring \<Rightarrow> jsstring" where
  "or_else t d = (case t of None \<Rightarrow> d | Some s \<Rightarrow> if s = [] then d else s)"

text \<open>
  \<open>buildTree\<close> takes the path of the directory, the relative path walked so far, and what
  \<^verbatim>\<open>readdirSync\<close> finds there (whether it succeeds, and the entries); \<open>scan_entries\<close>
  is its \<^verbatim>\<open>for\<close> loop, with the \<^verbatim>\<open>children\<close> collected so far. A failing
  read is an exception: it ends the walk, and what was printed before stays printed.
\<close>

fun buildTree ::
    "jsstring \<Rightarrow> jsstring \<Rightarrow> bool \<Rightarrow> dirent list \<Rightarrow> console \<Rightarrow> console \<times> (error + node option)"
and scan_entries ::
    "jsstring \<Rightarrow> jsstring \<Rightarrow> jsstring \<Rightarrow> dirent list \<Rightarrow> node list \<Rightarrow> console
       \<Rightarrow> console \<times> (error + node list)"
where
  "buildTree currentPath relativePath readable entries out =
     (let name = path_basename currentPath in
      if \<not> readable then (out, Inl (ReaddirError currentPath))
      else
        (case scan_entries currentPath relativePath name entries [] out of
           (out', Inl e) \<Rightarrow> (out', Inl e)
         | (out', Inr children) \<Rightarrow>
             (out', Inr (if length children > 0 then Some (Folder name children) else None))))"
| "scan_entries currentPath relativePath name [] children out = (out, Inr children)"
| "scan_entries currentPath relativePath name (Directory n r es # rest) children out =
     (case buildTree (path_join [currentPath, n]) (path_join [relativePath, name]) r es out of
        (out', Inl e) \<Rightarrow> (out', Inl e)
      | (out', Inr child) \<Rightarrow>
          scan_entries currentPath relativePath name rest
            (case child of None \<Rightarrow> children | Some c \<Rightarrow> children @ [c]) out')"
| "scan_entries currentPath relativePath name (File n content # rest) children out =
     (let entryPath = path_join [currentPath, n];
          entryRelPath = replace_backslashes (path_join [relativePath, name, n])
      in if endsWith n (str ''.html'') then
           (case content of
              None \<Rightarrow> (out, Inl (ReadFileError entryPath))
            | Some html \<Rightarrow>
                (let title = extractTitle html;
                     meta = checkSitemapMeta html
                 in if include meta then
                      scan_entries currentPath relativePath name rest
                        (children @ [Page n entryRelPath (or_else title n) True])
                        (if falsy title then out @ [(Warn, TitleMissing entryPath)] else out)
                    else if exclude meta then
                      scan_entries currentPath relativePath name rest children
                        (out @ [(Log, Excluded entryPath)])
                    else
                      scan_entries currentPath relativePath name rest children
                        (out @ [(Warn, SitemapTagMissing entryPath)])))
         else scan_entries currentPath relativePath name rest children out)"
| "scan_entries currentPath relativePath name (Other n # rest) children out =
     scan_entries currentPath relativePath name rest children out"
| "scan_entries currentPath relativePath name (Link n target # rest) children out =
     scan_entries currentPath relativePath name rest children out"

subsection \<open>Serialisation\<close>

text \<open>
  \<^verbatim>\<open>JSON.stringify(tree, null, 2)\<close>. A string is quoted with the escapes of
  \<^verbatim>\<open>QuoteJSONString\<close>: the short escapes, \<^verbatim>\<open>\uXXXX\<close> for the other control
  characters and for a surrogate without its partner. An object or array puts each member
  on a line of its own, two spaces deeper.
\<close>

definition hex_digit :: "nat \<Rightarrow> jschar" where
  "hex_digit d = (if d < 10 then 0x30 + d else 0x61 + (d - 10))"

definition unicode_escape :: "jschar \<Rightarrow> jsstring" where
  "unicode_escape c =
     [0x5C, 0x75] @ [hex_digit (c div 4096 mod 16), hex_digit (c div 256 mod 16),
                    hex_digit (c div 16 mod 16), hex_digit (c mod 16)]"

definition is_leading_surrogate :: "jschar \<Rightarrow> bool" where
  "is_leading_surrogate c = (0xD800 \<le> c \<and> c \<le> 0xDBFF)"

definition is_trailing_surrogate :: "jschar \<Rightarrow> bool" where
  "is_trailing_surrogate c = (0xDC00 \<le> c \<and> c \<le> 0xDFFF)"

definition quote_char :: "jschar \<Rightarrow> jsstring" where
  "quote_char c =
     (if c = 0x08 then [0x5C, 0x62]
      else if c = 0x09 then [0x5C, 0x74]
      else if c = 0x0A then [0x5C, 0x6E]
      else if c = 0x0C then [0x5C, 0x66]
      else if c = 0x0D then [0x5C, 0x72]
      else if c = 0x22 then [0x5C, 0x22]
      else if c = 0x5C then [0x5C, 0x5C]
      else if c < 0x20 then unicode_escape c
      else [c])"

fun quote_chars :: "jsstring \<Rightarrow> jsstring" where
  "quote_chars [] = []"
| "quote_chars [c] =
     (if is_leading_surrogate c \<or> is_trailing_surrogate c then unicode_escape c
      else quote_char c)"
| "quote_chars (c # d # cs) =
     (if is_leading_surrogate c \<and> is_trailing_surrogate d then c # d # quote_chars cs
      else if is_leading_surrogate c \<or> is_trailing_surrogate c
        then unicode_escape c @ quote_chars (d # cs)
      else quote_char c @ quote_chars (d # cs))"

definition QuoteJSONString :: "jsstring \<Rightarrow> jsstring" where
  "QuoteJSONString s = [0x22] @ quote_chars s @ [0x22]"

definition json_property :: "string \<Rightarrow> jsstring \<Rightarrow> jsstring" where
  "json_property key v = QuoteJSONString (str key) @ str '': '' @ v"

definition json_block :: "string \<Rightarrow> string \<Rightarrow> jsstring \<Rightarrow> jsstring list \<Rightarrow> jsstring" where
  "json_block opening closing indent members =
     str opening @ [0x0A] @ indent @ str ''  '' @
     join_with (str '','' @ [0x0A] @ indent @ str ''  '') members @
     [0x0A] @ indent @ str closing"

fun serialize_node :: "jsstring \<Rightarrow> node \<Rightarrow> jsstring" where
  "serialize_node indent (Page name path title sitemap) =
     json_block ''{'' ''}'' indent
       [json_property ''name'' (QuoteJSONString name),
        json_property ''path'' (QuoteJSONString path),
        json_property ''title'' (QuoteJSONString title),
        json_property ''sitemap'' (if sitemap then str ''true'' else str ''false'')]"
| "serialize_node indent (Folder name children) =
     json_block ''{'' ''}'' indent
       [json_property ''name'' (QuoteJSONString name),
        json_property ''children''
          (if children = [] then str ''[]''
           else json_block ''['' '']'' (indent @ str ''  '')
                  (map (serialize_node (indent @ str ''    '')) children))]"

definition JSON_stringify :: "node option \<Rightarrow> jsstring" where
  "JSON_stringify tree = (case tree of None \<Rightarrow> str ''null'' | Some n \<Rightarrow> serialize_node [] n)"

subsection \<open>Writing the output file\<close>

text \<open>
  Opening a path reaches what an entry resolves to: the entry itself, or for a symbolic link
  its target. \<open>with_target e d\<close> puts \<open>d\<close> where \<open>e\<close> resolves to.
\<close>

fun resolved :: "dirent \<Rightarrow> dirent option" where
  "resolved (Link n target) = target"
| "resolved e = Some e"

fun with_target :: "dirent \<Rightarrow> dirent \<Rightarrow> dirent" where
  "with_target (Link n target) d = Link n (Some d)"
| "with_target e d = d"

text \<open>
  Where \<^verbatim>\<open>writeFileSync\<close> puts the file, on a path below the scan root given by its
  components, as far as the listing decides it. Every component but the last must resolve
  to a directory (otherwise the open fails with \<^verbatim>\<open>ENOENT\<close> or \<^verbatim>\<open>ENOTDIR\<close>). The
  last one, when it is there, must resolve to a regular file, whose text is replaced, or
  be a dangling link, whose target is created; when it is not there the file is created.
  A last component that resolves to a directory or to a special file makes the write fail.
\<close>

fun write_file :: "dirent list \<Rightarrow> jsstring \<Rightarrow> jsstring \<Rightarrow> dirent list option" where
  "write_file [] f data = Some [File f (Some data)]"
| "write_file (e # es) f data =
     (if entry_name e = f then
        (case resolved e of
           None \<Rightarrow> Some (with_target e (File f (Some data)) # es)
         | Some (File n c) \<Rightarrow> Some (with_target e (File n (Some data)) # es)
         | Some other \<Rightarrow> None)
      else map_option (\<lambda>es'. e # es') (write_file es f data))"

fun write_path :: "dirent list \<Rightarrow> jsstring list \<Rightarrow> jsstring \<Rightarrow> dirent list option" where
  "write_path es [] data = None"
| "write_path es [f] data = write_file es f data"
| "write_path [] (d # f # p) data = None"
| "write_path (e # es) (d # f # p) data =
     (if entry_name e = d then
        (case resolved e of
           Some (Directory n r sub) \<Rightarrow>
             map_option (\<lambda>sub'. with_target e (Directory n r sub') # es)
               (write_path sub (f # p) data)
         | other \<Rightarrow> None)
      else map_option (\<lambda>es'. e # es') (write_path es (d # f # p) data))"

subsection \<open>The run\<close>

text \<open>
  The world of one run: the working directory (the scan root), what is on disk below it,
  what has been printed, and whether the operating system grants the write of the output
  file once its path resolves (it refuses with \<^verbatim>\<open>EACCES\<close>, \<^verbatim>\<open>EROFS\<close> and the
  like; a granted write is taken to complete).
\<close>

record world =
  cwd :: jsstring
  root_readable :: bool
  root :: "dirent list"
  console :: console
  write_granted :: bool

definition outputFile_components :: "jsstring list" where
  "outputFile_components = [str ''assets'', str ''data'', str ''tree.json'']"

definition outputFile :: "jsstring \<Rightarrow> jsstring" where
  "outputFile rootDir = path_join (rootDir # outputFile_components)"

definition writeFileSync :: "world \<Rightarrow> jsstring list \<Rightarrow> jsstring \<Rightarrow> error + world" where
  "writeFileSync w components data =
     (case write_path (root w) components data of
        None \<Rightarrow> Inl (WriteFileError (path_join (cwd w # components)))
      | Some es \<Rightarrow>
          if write_granted w then Inr (w\<lparr>root := es\<rparr>)
          else Inl (WriteFileError (path_join (cwd w # components))))"

text \<open>The \<^verbatim>\<open>try\<close> block of the script and its \<^verbatim>\<open>catch\<close>.\<close>

definition run :: "world \<Rightarrow> world" where
  "run w =
     (let rootDir = cwd w;
          out0 = console w @ [(Log, Scanning)]
      in case buildTree rootDir [] (root_readable w) (root w) out0 of
           (out, Inl err) \<Rightarrow> w\<lparr>console := out @ [(Error, ExportFailed err)]\<rparr>
         | (out, Inr tree) \<Rightarrow>
             (case writeFileSync (w\<lparr>console := out\<rparr>) outputFile_components
                     (JSON_stringify tree) of
                Inl err \<Rightarrow> w\<lparr>console := out @ [(Error, ExportFailed err)]\<rparr>
              | Inr w' \<Rightarrow>
                  w'\<lparr>console := out @ [(Log, ExportComplete (outputFile rootDir))]\<rparr>))"

subsection \<open>Notions of the specification\<close>

text \<open>The tri-state verdict of the classifier: include wins over exclude.\<close>

datatype verdict = Include | Exclude | Unspecified

definition classify :: "jsstring \<Rightarrow> verdict" where
  "classify html =
     (let meta = checkSitemapMeta html
      in if include meta then Include else if exclude meta then Exclude else Unspecified)"

text \<open>A page file is a regular file whose name ends in \<^verbatim>\<open>.html\<close>. A directory
  qualifies when it holds, directly or at any depth, a page file classified Include.\<close>

definition is_page_name :: "jsstring \<Rightarrow> bool" where
  "is_page_name n = endsWith n (str ''.html'')"

fun qualifies :: "dirent \<Rightarrow> bool" and any_qualifies :: "dirent list \<Rightarrow> bool" where
  "qualifies (Directory n r es) = any_qualifies es"
| "qualifies (File n c) =
     (is_page_name n \<and> (case c of None \<Rightarrow> False | Some html \<Rightarrow> classify html = Include))"
| "qualifies (Other n) = False"
| "qualifies (Link n target) = False"
| "any_qualifies [] = False"
| "any_qualifies (e # es) = (qualifies e \<or> any_qualifies es)"

text \<open>A filesystem access of the walk fails: a directory the walk reaches cannot be
  enumerated, or a page file it reaches cannot be read.\<close>

fun access_fails :: "dirent \<Rightarrow> bool" and any_access_fails :: "dirent list \<Rightarrow> bool" where
  "access_fails (Directory n r es) = (\<not> r \<or> any_access_fails es)"
| "access_fails (File n c) = (is_page_name n \<and> c = None)"
| "access_fails (Other n) = False"
| "access_fails (Link n target) = False"
| "any_access_fails [] = False"
| "any_access_fails (e # es) = (access_fails e \<or> any_access_fails es)"

text \<open>
  The tree of a walk that meets no read failure, as a function of the listing alone (no
  console, no error): \<open>walk_result\<close> below proves that \<open>buildTree\<close> returns it.
\<close>

fun expected_tree :: "jsstring \<Rightarrow> jsstring \<Rightarrow> dirent list \<Rightarrow> node option"
and expected_children :: "jsstring \<Rightarrow> jsstring \<Rightarrow> jsstring \<Rightarrow> dirent list \<Rightarrow> node list"
where
  "expected_tree currentPath relativePath es =
     (case expected_children currentPath relativePath (path_basename currentPath) es of
        [] \<Rightarrow> None
      | c # cs \<Rightarrow> Some (Folder (path_basename currentPath) (c # cs)))"
| "expected_children currentPath relativePath name [] = []"
| "expected_children currentPath relativePath name (Directory n r sub # rest) =
     (case expected_tree (path_join [currentPath, n]) (path_join [relativePath, name]) sub of
        None \<Rightarrow> []
      | Some c \<Rightarrow> [c]) @ expected_children currentPath relativePath name rest"
| "expected_children currentPath relativePath name (File n c # rest) =
     (case c of
        Some html \<Rightarrow>
          if is_page_name n \<and> classify html = Include
          then [Page n (replace_backslashes (path_join [relativePath, name, n]))
                  (or_else (extractTitle html) n) True]
          else []
      | None \<Rightarrow> []) @ expected_children currentPath relativePath name rest"
| "expected_children currentPath relativePath name (Other n # rest) =
     expected_children currentPath relativePath name rest"
| "expected_children currentPath relativePath name (Link n target # rest) =
     expected_children currentPath relativePath name rest"

text \<open>
  The page files below a directory that can be read, in the order of the walk: the names of
  the directories on the way down, the name of the file and its text.
\<close>

record page_file =
  pf_dirs :: "jsstring list"
  pf_name :: jsstring
  pf_text :: jsstring

definition below :: "jsstring \<Rightarrow> page_file \<Rightarrow> page_file" where
  "below d f = f\<lparr>pf_dirs := d # pf_dirs f\<rparr>"

fun page_files :: "dirent list \<Rightarrow> page_file list" where
  "page_files [] = []"
| "page_files (Directory n r sub # rest) = map (below n) (page_files sub) @ page_files rest"
| "page_files (File n c # rest) =
     (case c of
        Some html \<Rightarrow> if is_page_name n then [\<lparr>pf_dirs = [], pf_name = n, pf_text = html\<rparr>] else []
      | None \<Rightarrow> []) @ page_files rest"
| "page_files (Other n # rest) = page_files rest"
| "page_files (Link n target # rest) = page_files rest"

definition included :: "page_file \<Rightarrow> bool" where
  "included f = (classify (pf_text f) = Include)"

text \<open>The page nodes of a tree, left to right, and the fields of a node.\<close>

fun leaves :: "node \<Rightarrow> node list" where
  "leaves (Page n p t s) = [Page n p t s]"
| "leaves (Folder n cs) = concat (map leaves cs)"

definition tree_leaves :: "node option \<Rightarrow> node list" where
  "tree_leaves t = (case t of None \<Rightarrow> [] | Some n \<Rightarrow> leaves n)"

fun node_name :: "node \<Rightarrow> jsstring" where
  "node_name (Page n p t s) = n"
| "node_name (Folder n cs) = n"

fun node_path :: "node \<Rightarrow> jsstring option" where
  "node_path (Page n p t s) = Some p"
| "node_path (Folder n cs) = None"

fun node_title :: "node \<Rightarrow> jsstring option" where
  "node_title (Page n p t s) = Some t"
| "node_title (Folder n cs) = None"

fun node_sitemap :: "node \<Rightarrow> bool option" where
  "node_sitemap (Page n p t s) = Some s"
| "node_sitemap (Folder n cs) = None"

text \<open>
  \<open>dir_at es p target\<close>: going down from the listing \<open>es\<close> through the directories
  named in \<open>p\<close> leads to a directory whose listing is \<open>target\<close>.
  \<open>folder_at n p\<close>: going down from the directory node \<open>n\<close> through the directory
  nodes named in \<open>p\<close> leads to a directory node.
\<close>

fun dir_at :: "dirent list \<Rightarrow> jsstring list \<Rightarrow> dirent list \<Rightarrow> bool" where
  "dir_at es [] target = (es = target)"
| "dir_at es (d # p) target =
     list_ex (\<lambda>e. case e of Directory n r sub \<Rightarrow> n = d \<and> dir_at sub p target | _ \<Rightarrow> False) es"

fun folder_at :: "node \<Rightarrow> jsstring list \<Rightarrow> bool" where
  "folder_at (Page n pa t s) p = False"
| "folder_at (Folder n cs) [] = True"
| "folder_at (Folder n cs) (d # p) =
     list_ex (\<lambda>c. case c of Folder m cs' \<Rightarrow> m = d \<and> folder_at c p | _ \<Rightarrow> False) cs"

text \<open>A name that \<^verbatim>\<open>readdirSync\<close> can return: not empty, no slash, not a dot
  entry. A listing is well formed when all names in it, at every depth, are such names and
  no two entries of one directory have the same name.\<close>

definition valid_name :: "jsstring \<Rightarrow> bool" where
  "valid_name n = (n \<noteq> [] \<and> slash \<notin> set n \<and> n \<noteq> str ''.'' \<and> n \<noteq> str ''..'')"

definition valid_or_empty :: "jsstring \<Rightarrow> bool" where
  "valid_or_empty n = (n = [] \<or> valid_name n)"

fun wf_entry :: "dirent \<Rightarrow> bool" and wf_entries :: "dirent list \<Rightarrow> bool" where
  "wf_entry (Directory n r sub) = (valid_name n \<and> wf_entries sub)"
| "wf_entry (File n c) = valid_name n"
| "wf_entry (Other n) = valid_name n"
| "wf_entry (Link n target) = valid_name n"
| "wf_entries [] = True"
| "wf_entries (e # es) =
     (wf_entry e \<and> \<not> list_ex (\<lambda>e'. entry_name e' = entry_name e) es \<and> wf_entries es)"

text \<open>The errors of the walk, and the text of the file that a path below the scan root
  opens (\<open>None\<close> when there is no such file, or it cannot be read).\<close>

fun is_read_error :: "error \<Rightarrow> bool" where
  "is_read_error (ReaddirError p) = True"
| "is_read_error (ReadFileError p) = True"
| "is_read_error (WriteFileError p) = False"

fun file_text :: "dirent list \<Rightarrow> jsstring list \<Rightarrow> jsstring option" where
  "file_text es [] = None"
| "file_text [] (d # p) = None"
| "file_text (e # es) [f] =
     (if entry_name e = f then (case resolved e of Some (File n c) \<Rightarrow> c | other \<Rightarrow> None)
      else file_text es [f])"
| "file_text (e # es) (d # f # p) =
     (if entry_name e = d then
        (case resolved e of Some (Directory n r sub) \<Rightarrow> file_text sub (f # p) | other \<Rightarrow> None)
      else file_text es (d # f # p))"

text \<open>
  The title the specification asks for: a title pair is an opening delimiter at \<open>i\<close>
  and a closing delimiter at \<open>j\<close>, both matched without regard to letter case, with no
  line terminator between them; the first pair has the leftmost such \<open>i\<close> and, for it,
  the leftmost \<open>j\<close>; the title is the trimmed text between the two.
\<close>

definition ci_prefix :: "jsstring \<Rightarrow> jsstring \<Rightarrow> bool" where
  "ci_prefix w s =
     (length w \<le> length s \<and> map canonicalize (take (length w) s) = map canonicalize w)"

definition opening_at :: "jsstring \<Rightarrow> nat \<Rightarrow> bool" where
  "opening_at html i = ci_prefix (str ''<title>'') (drop i html)"

definition closing_at :: "jsstring \<Rightarrow> nat \<Rightarrow> bool" where
  "closing_at html j = ci_prefix (str ''</title>'') (drop j html)"

definition between :: "jsstring \<Rightarrow> nat \<Rightarrow> nat \<Rightarrow> jsstring" where
  "between html i j = take (j - (i + 7)) (drop (i + 7) html)"

definition title_pair :: "jsstring \<Rightarrow> nat \<Rightarrow> nat \<Rightarrow> bool" where
  "title_pair html i j =
     (opening_at html i \<and> i + 7 \<le> j \<and> closing_at html j \<and>
      \<not> list_ex is_line_terminator (between html i j))"

definition first_title_pair :: "jsstring \<Rightarrow> (nat \<times> nat) option" where
  "first_title_pair html =
     (case find (\<lambda>i. list_ex (title_pair html i) [0..<Suc (length html)]) [0..<Suc (length html)] of
        None \<Rightarrow> None
      | Some i \<Rightarrow>
          (case find (title_pair html i) [0..<Suc (length html)] of
             None \<Rightarrow> None
           | Some j \<Rightarrow> Some (i, j)))"

definition spec_title :: "jsstring \<Rightarrow> jsstring option" where
  "spec_title html =
     (case first_title_pair html of
        None \<Rightarrow> None
      | Some (i, j) \<Rightarrow> Some (trim (between html i j)))"

text \<open>
  A sitemap directive with the name attribute written first: the pieces of its text, and what
  each piece must be. Letter case is free, the white space between the attributes is any
  non-empty run, each quote is either quote character, and the closing slash is optional.
\<close>

definition ci_equal :: "jsstring \<Rightarrow> jsstring \<Rightarrow> bool" where
  "ci_equal a b = (map canonicalize a = map canonicalize b)"

record directive =
  d_tag :: jsstring
  d_space1 :: jsstring
  d_name_attr :: jsstring
  d_quote1 :: jschar
  d_name :: jsstring
  d_quote2 :: jschar
  d_space2 :: jsstring
  d_content_attr :: jsstring
  d_quote3 :: jschar
  d_content :: jsstring
  d_quote4 :: jschar
  d_space3 :: jsstring
  d_slash :: bool

definition directive_text :: "directive \<Rightarrow> jsstring" where
  "directive_text d =
     d_tag d @ d_space1 d @ d_name_attr d @ [d_quote1 d] @ d_name d @ [d_quote2 d] @
     d_space2 d @ d_content_attr d @ [d_quote3 d] @ d_content d @ [d_quote4 d] @
     d_space3 d @ (if d_slash d then str ''/'' else []) @ str ''>''"

definition is_directive :: "string \<Rightarrow> directive \<Rightarrow> bool" where
  "is_directive v d =
     (ci_equal (d_tag d) (str ''<meta'') \<and>
      d_space1 d \<noteq> [] \<and> list_all is_white_space (d_space1 d) \<and>
      ci_equal (d_name_attr d) (str ''name='') \<and>
      d_quote1 d \<in> set quotes \<and>
      ci_equal (d_name d) (str ''sitemap'') \<and>
      d_quote2 d \<in> set quotes \<and>
      d_space2 d \<noteq> [] \<and> list_all is_white_space (d_space2 d) \<and>
      ci_equal (d_content_attr d) (str ''content='') \<and>
      d_quote3 d \<in> set quotes \<and>
      ci_equal (d_content d) (str v) \<and>
      d_quote4 d \<in> set quotes \<and>
      list_all is_white_space (d_space3 d))"

subsection \<open>Example projects\<close>

definition ex_home :: jsstring where
  "ex_home = str ''<meta name=\"sitemap\" content=\"include\"><title>A</title>''"

definition ex_excluded :: jsstring where
  "ex_excluded = str ''<meta name=\"sitemap\" content=\"exclude\"><title>B</title>''"

definition ex_unmarked :: jsstring where
  "ex_unmarked = str ''<title>C</title>''"

definition ex_both :: jsstring where
  "ex_both = str ''<meta name=\"sitemap\" content=\"include\"><META NAME='SITEMAP' CONTENT='EXCLUDE' />''"

definition ex_site :: "dirent list" where
  "ex_site =
     [File (str ''a.html'') (Some ex_home),
      Directory (str ''sub'') True
        [File (str ''b.html'') (Some ex_excluded), File (str ''c.html'') (Some ex_unmarked)],
      Directory (str ''x'') True
        [Directory (str ''y'') True [File (str ''z.html'') (Some ex_both)]],
      Directory (str ''assets'') True [Directory (str ''data'') True []]]"

definition ex_tree :: node where
  "ex_tree =
     Folder (str ''site'')
       [Page (str ''a.html'') (str ''site/a.html'') (str ''A'') True,
        Folder (str ''x'')
          [Folder (str ''y'')
             [Page (str ''z.html'') (str ''site/x/y/z.html'') (str ''z.html'') True]]]"

definition ex_console :: console where
  "ex_console =
     [(Log, Excluded (str ''/home/u/site/sub/b.html'')),
      (Warn, SitemapTagMissing (str ''/home/u/site/sub/c.html'')),
      (Warn, TitleMissing (str ''/home/u/site/x/y/z.html''))]"

definition ex_broken :: world where
  "ex_broken =
     \<lparr> cwd = str ''/home/u/site'', root_readable = True,
       root = [File (str ''a.html'') (Some ex_home),
               Directory (str ''assets'') True
                 [Directory (str ''data'') True [File (str ''tree.json'') (Some (str ''null''))]],
               Directory (str ''private'') False []],
       console = [], write_granted = True \<rparr>"

definition ex_backslash_name :: jsstring where
  "ex_backslash_name = str ''a'' @ [0x5C] @ str ''b.html''"

definition ex_no_assets :: world where
  "ex_no_assets =
     \<lparr> cwd = str ''/home/u/site'', root_readable = True,
       root = [File (str ''a.html'') (Some ex_home)], console = [], write_granted = True \<rparr>"

definition ex_no_pages :: world where
  "ex_no_pages =
     \<lparr> cwd = str ''/home/u/site'', root_readable = True,
       root = [File (str ''notes.txt'') (Some ex_home),
               Directory (str ''assets'') True [Directory (str ''data'') True []]],
       console = [], write_granted = True \<rparr>"

definition ex_empty_project :: world where
  "ex_empty_project =
     \<lparr> cwd = str ''/home/u/site'', root_readable = True, root = [], console = [],
       write_granted = True \<rparr>"

definition ex_write_refused :: world where
  "ex_write_refused =
     \<lparr> cwd = str ''/home/u/site'', root_readable = True,
       root = [Directory (str ''assets'') True [Directory (str ''data'') True []]],
       console = [], write_granted = False \<rparr>"

definition ex_mixed :: jsstring where
  "ex_mixed = str ''<meta content=\"include\" name=\"sitemap\"><meta name=\"sitemap\" content=\"exclude\">''"

definition ex_include_tag :: directive where
  "ex_include_tag =
     \<lparr> d_tag = str ''<meta'', d_space1 = [0x20], d_name_attr = str ''name='',
       d_quote1 = 0x22, d_name = str ''sitemap'', d_quote2 = 0x22, d_space2 = [0x20],
       d_content_attr = str ''content='', d_quote3 = 0x22, d_content = str ''include'',
       d_quote4 = 0x22, d_space3 = [], d_slash = False \<rparr>"

definition ex_exclude_tag :: directive where
  "ex_exclude_tag =
     \<lparr> d_tag = str ''<META'', d_space1 = [0x20], d_name_attr = str ''NAME='',
       d_quote1 = 0x27, d_name = str ''SITEMAP'', d_quote2 = 0x27, d_space2 = [0x20],
       d_content_attr = str ''CONTENT='', d_quote3 = 0x27, d_content = str ''EXCLUDE'',
       d_quote4 = 0x27, d_space3 = [0x20], d_slash = True \<rparr>"

definition ex_unreadable_page :: world where
  "ex_unreadable_page =
     \<lparr> cwd = str ''/home/u/site'', root_readable = True,
       root = [Directory (str ''assets'') True [Directory (str ''data'') True []],
               File (str ''draft.html'') None],
       console = [], write_granted = True \<rparr>"

definition ex_title_text :: jsstring where
  "ex_title_text = str ''<p>'' @ str ''<TITLE>  Home  </TITLE>'' @ str ''<b>''"

definition ex_content_first :: jsstring where
  "ex_content_first = str ''<meta content=\"include\" name=\"sitemap\">''"

definition ex_directive_exclude :: directive where
  "ex_directive_exclude =
     \<lparr> d_tag = str ''<meta'', d_space1 = [0x20], d_name_attr = str ''name='',
       d_quote1 = 0x22, d_name = str ''sitemap'', d_quote2 = 0x22, d_space2 = [0x20],
       d_content_attr = str ''content='', d_quote3 = 0x22, d_content = str ''exclude'',
       d_quote4 = 0x22, d_space3 = [], d_slash = False \<rparr>"

definition ex_directive :: directive where
  "ex_directive =
     \<lparr> d_tag = str ''<META'', d_space1 = [0x20, 0x0A], d_name_attr = str ''Name='',
       d_quote1 = 0x27, d_name = str ''SiteMap'', d_quote2 = 0x22, d_space2 = [0x09],
       d_content_attr = str ''CONTENT='', d_quote3 = 0x22, d_content = str ''Include'',
       d_quote4 = 0x27, d_space3 = [0x20], d_slash = True \<rparr>"

section \<open>Properties\<close>

subsection \<open>Paths\<close>

lemma split_on_nonempty: "split_on d s \<noteq> []"
  by (induction s) (auto split: list.splits)

lemma split_on_no_sep: "d \<notin> set s \<Longrightarrow> split_on d s = [s]"
  by (induction s) auto

lemma split_on_append: "split_on d (a @ d # b) = split_on d a @ split_on d b"
proof (induction a)
  case Nil
  then show ?case by simp
next
  case (Cons c a)
  obtain seg segs where sa: "split_on d a = seg # segs"
    using split_on_nonempty[of d a] by (cases "split_on d a") auto
  with Cons show ?case by simp
qed

lemma join_with_Cons: "ys \<noteq> [] \<Longrightarrow> join_with sep (x # ys) = x @ sep @ join_with sep ys"
  by (cases ys) auto

lemma join_with_snoc: "xs \<noteq> [] \<Longrightarrow> join_with sep (xs @ [y]) = join_with sep xs @ sep @ y"
  by (induction sep xs rule: join_with.induct) auto

lemma join_with_append:
  "xs \<noteq> [] \<Longrightarrow> ys \<noteq> [] \<Longrightarrow> join_with sep (xs @ ys) = join_with sep xs @ sep @ join_with sep ys"
  by (induction sep xs rule: join_with.induct) (auto simp: join_with_Cons)

lemma split_join:
  "segs \<noteq> [] \<Longrightarrow> list_all (\<lambda>s. d \<notin> set s) segs \<Longrightarrow> split_on d (join_with [d] segs) = segs"
proof (induction "[d]" segs rule: join_with.induct)
  case 1
  then show ?case by simp
next
  case (2 x)
  then show ?case by (simp add: split_on_no_sep)
next
  case (3 x y ys)
  then show ?case
    using split_on_append[of d x "join_with [d] (y # ys)"] by (simp add: split_on_no_sep)
qed

lemma normalize_step_valid: "valid_name n \<Longrightarrow> normalize_step b res n = res @ [n]"
  by (auto simp: normalize_step_def valid_name_def)

lemma foldl_normalize_valid:
  "list_all valid_name segs \<Longrightarrow> foldl (normalize_step b) res segs = res @ segs"
  by (induction segs arbitrary: res) (auto simp: normalize_step_valid)

lemma join_with_nonempty: "segs \<noteq> [] \<Longrightarrow> hd segs \<noteq> [] \<Longrightarrow> join_with sep segs \<noteq> []"
  by (induction sep segs rule: join_with.induct) auto

lemma hd_join_with: "segs \<noteq> [] \<Longrightarrow> hd segs \<noteq> [] \<Longrightarrow> hd (join_with sep segs) = hd (hd segs)"
  by (induction sep segs rule: join_with.induct) auto

lemma last_join_with:
  "segs \<noteq> [] \<Longrightarrow> last segs \<noteq> [] \<Longrightarrow>
     join_with sep segs \<noteq> [] \<and> last (join_with sep segs) = last (last segs)"
  by (induction sep segs rule: join_with.induct) auto

lemma valid_name_ends: "valid_name n \<Longrightarrow> hd n \<noteq> slash \<and> last n \<noteq> slash \<and> n \<noteq> []"
  by (metis hd_in_set last_in_set valid_name_def)

lemma valid_names_no_slash: "list_all valid_name segs \<Longrightarrow> list_all (\<lambda>s. slash \<notin> set s) segs"
  by (induction segs) (auto simp: valid_name_def)

lemma path_normalize_valid:
  assumes "segs \<noteq> []" "list_all valid_name segs"
  shows "path_normalize (join_with [slash] segs) = join_with [slash] segs"
proof -
  let ?p = "join_with [slash] segs"
  have hdv: "valid_name (hd segs)" and lastv: "valid_name (last segs)"
    using assms by (auto simp: list_all_iff)
  have ne: "?p \<noteq> []"
    using assms hdv by (simp add: join_with_nonempty valid_name_ends)
  have h: "hd ?p \<noteq> slash"
    using assms hdv by (simp add: hd_join_with valid_name_ends)
  have l: "last ?p \<noteq> slash"
    using assms lastv by (simp add: last_join_with valid_name_ends)
  have "normalizeString ?p True = ?p"
    using assms by (simp add: normalizeString_def split_join valid_names_no_slash foldl_normalize_valid)
  with ne h l show ?thesis
    by (simp add: path_normalize_def Let_def)
qed

lemma path_normalize_dot_valid:
  assumes "segs \<noteq> []" "list_all valid_name segs"
  shows "path_normalize (join_with [slash] (str ''.'' # segs)) = join_with [slash] segs"
proof -
  let ?p = "join_with [slash] (str ''.'' # segs)"
  let ?q = "join_with [slash] segs"
  have lastv: "valid_name (last segs)" and hdv: "valid_name (hd segs)"
    using assms by (auto simp: list_all_iff)
  have p: "?p = str ''.'' @ [slash] @ ?q"
    using assms by (simp add: join_with_Cons)
  have ne: "?q \<noteq> []"
    using assms hdv by (simp add: join_with_nonempty valid_name_ends)
  have l: "last ?p \<noteq> slash"
    using assms lastv ne by (simp add: p last_join_with valid_name_ends)
  have h: "hd ?p \<noteq> slash" "?p \<noteq> []"
    unfolding p by (simp_all add: str_def slash_def)
  have "list_all (\<lambda>s. slash \<notin> set s) (str ''.'' # segs)"
    using assms valid_names_no_slash[of segs] by (simp add: str_def slash_def)
  then have "split_on slash ?p = str ''.'' # segs"
    by (rule split_join[rotated]) simp
  then have "normalizeString ?p True = ?q"
    using assms by (simp add: normalizeString_def foldl_normalize_valid normalize_step_def)
  with ne h l show ?thesis
    by (simp add: path_normalize_def Let_def)
qed

lemma filter_nonempty_valid:
  "list_all valid_or_empty xs \<Longrightarrow> list_all valid_name (filter (\<lambda>a. a \<noteq> []) xs)"
  by (induction xs) (auto simp: valid_or_empty_def)

lemma filter_nonempty_id: "list_all valid_name xs \<Longrightarrow> filter (\<lambda>a. a \<noteq> []) xs = xs"
  by (induction xs) (auto simp: valid_name_def)

lemma path_join_valid:
  assumes "list_all valid_or_empty xs" "filter (\<lambda>a. a \<noteq> []) xs \<noteq> []"
  shows "path_join xs = join_with [slash] (filter (\<lambda>a. a \<noteq> []) xs)"
  using assms by (simp add: path_join_def Let_def path_normalize_valid filter_nonempty_valid)

lemma path_join_assoc:
  assumes X: "list_all valid_or_empty X" and Y: "list_all valid_name Y" "Y \<noteq> []"
  shows "path_join (path_join X # Y) = path_join (X @ Y)"
proof -
  let ?X = "filter (\<lambda>a. a \<noteq> []) X"
  have Yf: "filter (\<lambda>a. a \<noteq> []) Y = Y"
    using Y by (simp add: filter_nonempty_id)
  have Xv: "list_all valid_name ?X"
    using X by (rule filter_nonempty_valid)
  have rhs: "path_join (X @ Y) = join_with [slash] (?X @ Y)"
    using Y Xv by (simp add: path_join_def Let_def Yf path_normalize_valid)
  show ?thesis
  proof (cases "?X = []")
    case True
    then have "path_join X = str ''.''"
      by (simp add: path_join_def)
    moreover have "path_join (str ''.'' # Y) = path_normalize (join_with [slash] (str ''.'' # Y))"
      by (simp add: path_join_def Yf str_def)
    ultimately have "path_join (path_join X # Y) = path_normalize (join_with [slash] (str ''.'' # Y))"
      by simp
    with Y True rhs show ?thesis
      by (simp add: path_normalize_dot_valid)
  next
    case False
    then have jx: "path_join X = join_with [slash] ?X"
      using X by (simp add: path_join_valid)
    have ne: "join_with [slash] ?X \<noteq> []"
    proof -
      have "hd ?X \<in> set ?X" using False by (rule hd_in_set)
      then have "valid_name (hd ?X)" using Xv by (simp add: list_all_iff)
      then show ?thesis using False by (simp add: join_with_nonempty valid_name_ends)
    qed
    have "path_join (join_with [slash] ?X # Y) =
            path_normalize (join_with [slash] (join_with [slash] ?X # Y))"
      using ne by (simp add: path_join_def Yf)
    then have "path_join (path_join X # Y) =
            path_normalize (join_with [slash] (join_with [slash] ?X # Y))"
      by (simp only: jx)
    also have "join_with [slash] (join_with [slash] ?X # Y) = join_with [slash] (?X @ Y)"
      using False Y by (simp add: join_with_Cons join_with_append)
    also have "path_normalize (join_with [slash] (?X @ Y)) = join_with [slash] (?X @ Y)"
      using False Xv Y by (simp add: path_normalize_valid)
    finally show ?thesis using rhs by simp
  qed
qed

lemma basename_after_slash:
  assumes "n \<noteq> []" "slash \<notin> set n"
  shows "path_basename (pre @ slash # n) = n" "path_basename n = n"
proof -
  have a: "dropWhile (\<lambda>c. c = slash) (rev n) = rev n"
    using assms by (cases "rev n") auto
  have b: "takeWhile (\<lambda>c. c \<noteq> slash) (rev n @ slash # rev pre) = rev n"
    using assms by (simp add: takeWhile_append)
  have c: "dropWhile (\<lambda>c. c = slash) (rev n @ slash # rev pre) = rev n @ slash # rev pre"
    using assms by (cases "rev n") auto
  show "path_basename (pre @ slash # n) = n"
    using b c by (simp add: path_basename_def)
  show "path_basename n = n"
  proof -
    have tw: "takeWhile (\<lambda>c. c \<noteq> slash) (rev n) = rev n"
      using assms by (auto simp: takeWhile_eq_all_conv)
    show ?thesis unfolding path_basename_def a tw by simp
  qed
qed

lemma basename_join:
  assumes "valid_name n"
  shows "path_basename (path_join [cp, n]) = n"
proof -
  have n: "n \<noteq> []" "slash \<notin> set n" "last n \<noteq> slash"
    using assms valid_name_ends[OF assms] by (auto simp: valid_name_def)
  show ?thesis
  proof (cases "cp = []")
    case True
    then have "path_join [cp, n] = n"
      using assms path_normalize_valid[of "[n]"] by (simp add: path_join_def n)
    then show ?thesis using n by (simp add: basename_after_slash)
  next
    case False
    let ?p = "cp @ slash # n"
    let ?b = "hd ?p \<noteq> slash"
    let ?acc = "foldl (normalize_step ?b) [] (split_on slash cp)"
    have pj: "path_join [cp, n] = path_normalize ?p"
      using False n by (simp add: path_join_def)
    have sp: "split_on slash ?p = split_on slash cp @ [n]"
      using n by (simp add: split_on_append split_on_no_sep)
    have q: "normalizeString ?p ?b = join_with [slash] (?acc @ [n])"
      using assms by (simp add: normalizeString_def sp normalize_step_valid)
    have q': "join_with [slash] (?acc @ [n]) = (if ?acc = [] then n else join_with [slash] ?acc @ slash # n)"
      by (simp add: join_with_snoc)
    have qne: "join_with [slash] (?acc @ [n]) \<noteq> []"
      using n by (simp add: q')
    have "\<exists>pre. path_normalize ?p = n \<or> path_normalize ?p = pre @ slash # n"
      using n False qne q q'
      by (simp add: path_normalize_def Let_def del: foldl_append)
    then show ?thesis
      using n pj by (auto simp: basename_after_slash)
  qed
qed

subsection \<open>The walk\<close>

declare expected_tree.simps [simp del]

lemma classify_Include: "classify html = Include \<longleftrightarrow> include (checkSitemapMeta html)"
  by (simp add: classify_def Let_def)

lemma walk_result:
  "(readable \<and> \<not> any_access_fails es \<longrightarrow>
      snd (buildTree cp rp readable es out) = Inr (expected_tree cp rp es)) \<and>
   (\<not> readable \<or> any_access_fails es \<longrightarrow>
      (\<exists>e. snd (buildTree cp rp readable es out) = Inl e))"
  "(\<not> any_access_fails es \<longrightarrow>
      snd (scan_entries cp rp name es children out) = Inr (children @ expected_children cp rp name es)) \<and>
   (any_access_fails es \<longrightarrow>
      (\<exists>e. snd (scan_entries cp rp name es children out) = Inl e))"
proof (induction cp rp readable es out and cp rp name es children out rule: buildTree_scan_entries.induct)
  case (1 currentPath relativePath readable entries out)
  then show ?case
    by (auto simp: Let_def expected_tree.simps split: prod.splits sum.splits list.splits)
next
  case (2 currentPath relativePath name children out)
  then show ?case by simp
next
  case (3 currentPath relativePath name n r es rest children out)
  obtain out1 res where bt: "buildTree (path_join [currentPath, n]) (path_join [relativePath, name]) r es out = (out1, res)"
    by (cases "buildTree (path_join [currentPath, n]) (path_join [relativePath, name]) r es out")
  show ?case
  proof (cases res)
    case (Inl e)
    with bt 3(1) show ?thesis by auto
  next
    case (Inr child)
    with bt 3(1) have ok: "r" "\<not> any_access_fails es" and ch: "child = expected_tree (path_join [currentPath, n]) (path_join [relativePath, name]) es"
      by auto
    from 3(2)[OF bt[symmetric] Inr] ok ch bt Inr show ?thesis
      by (auto split: option.splits)
  qed
next
  case (4 currentPath relativePath name n content rest children out)
  then show ?case   
    by (auto simp: Let_def is_page_name_def classify_Include split: prod.splits sum.splits list.splits option.splits)
next
  case (5 currentPath relativePath name n rest children out)
  then show ?case by simp
next
  case (6 currentPath relativePath name n target rest children out)
  then show ?case by simp
qed


lemma included_below [simp]: "included (below d f) = included f"
  by (simp add: included_def below_def)

lemma pf_below [simp]:
  "pf_name (below d f) = pf_name f" "pf_text (below d f) = pf_text f"
  "pf_dirs (below d f) = d # pf_dirs f"
  by (simp_all add: below_def)

lemma included_mk [simp]:
  "included \<lparr>pf_dirs = ds, pf_name = n, pf_text = html\<rparr> = (classify html = Include)"
  by (simp add: included_def)

lemma filter_included_below:
  "filter included (map (below d) fs) = map (below d) (filter included fs)"
  by (induction fs) auto

lemma tree_leaves_simps [simp]:
  "tree_leaves None = []" "tree_leaves (Some n) = leaves n"
  by (simp_all add: tree_leaves_def)

lemma expected_leaves:
  "map (\<lambda>l. (node_name l, node_title l, node_sitemap l)) (tree_leaves (expected_tree cp rp es)) =
     map (\<lambda>f. (pf_name f, Some (or_else (extractTitle (pf_text f)) (pf_name f)), Some True))
       (filter included (page_files es))"
  "map (\<lambda>l. (node_name l, node_title l, node_sitemap l))
       (concat (map leaves (expected_children cp rp name es))) =
     map (\<lambda>f. (pf_name f, Some (or_else (extractTitle (pf_text f)) (pf_name f)), Some True))
       (filter included (page_files es))"
proof (induction cp rp es and cp rp name es rule: expected_tree_expected_children.induct)
  case (1 currentPath relativePath es)
  then show ?case
    by (cases "expected_children currentPath relativePath (path_basename currentPath) es")
       (auto simp: expected_tree.simps)
next
  case (2 currentPath relativePath name)
  then show ?case by simp
next
  case (3 currentPath relativePath name n r sub rest)
  then show ?case
    by (cases "expected_tree (path_join [currentPath, n]) (path_join [relativePath, name]) sub")
       (auto simp: filter_included_below comp_def)
next
  case (4 currentPath relativePath name n c rest)
  then show ?case by (auto split: option.splits)
next
  case (5 currentPath relativePath name n rest)
  then show ?case by simp
next
  case (6 currentPath relativePath name n target rest)
  then show ?case by simp
qed

lemma leaves_are_pages: "l \<in> set (leaves n) \<Longrightarrow> \<exists>a b c d. l = Page a b c d"
  by (induction n rule: leaves.induct) auto

lemma expected_qualifies:
  "(expected_tree cp rp es \<noteq> None) = any_qualifies es"
  "(expected_children cp rp name es \<noteq> []) = any_qualifies es"
  by (induction cp rp es and cp rp name es rule: expected_tree_expected_children.induct)
     (auto simp: expected_tree.simps classify_Include split: list.splits option.splits)

lemma expected_tree_Folder:
  "expected_tree cp rp es = Some t \<Longrightarrow>
     t = Folder (path_basename cp) (expected_children cp rp (path_basename cp) es)"
  by (auto simp: expected_tree.simps split: list.splits)

lemma wf_entries_page_files:
  "wf_entries es \<Longrightarrow> f \<in> set (page_files es) \<Longrightarrow>
     list_all valid_name (pf_dirs f) \<and> valid_name (pf_name f)"
proof (induction es arbitrary: f rule: page_files.induct)
  case 1
  then show ?case by simp
next
  case (2 n r sub rest)
  then show ?case by auto
next
  case (3 n c rest)
  then show ?case by (auto split: option.splits if_splits)
next
  case (4 n rest)
  then show ?case by auto
next
  case (5 n target rest)
  then show ?case by auto
qed

lemma expected_paths:
  "wf_entries es \<Longrightarrow> list_all valid_or_empty chain \<Longrightarrow>
   (\<And>zs. list_all valid_name zs \<Longrightarrow>
      path_join (rp # path_basename cp # zs) = path_join (chain @ zs)) \<Longrightarrow>
   map node_path (tree_leaves (expected_tree cp rp es)) =
     map (\<lambda>f. Some (replace_backslashes (path_join (chain @ pf_dirs f @ [pf_name f]))))
       (filter included (page_files es))"
  "wf_entries es \<Longrightarrow> list_all valid_or_empty chain \<Longrightarrow>
   (\<And>zs. list_all valid_name zs \<Longrightarrow>
      path_join (rp # name # zs) = path_join (chain @ zs)) \<Longrightarrow>
   map node_path (concat (map leaves (expected_children cp rp name es))) =
     map (\<lambda>f. Some (replace_backslashes (path_join (chain @ pf_dirs f @ [pf_name f]))))
       (filter included (page_files es))"
proof (induction cp rp es and cp rp name es arbitrary: chain and chain
       rule: expected_tree_expected_children.induct)
  case (1 currentPath relativePath es)
  from 1(1)[OF 1(2) 1(3) 1(4)] show ?case
    by (cases "expected_children currentPath relativePath (path_basename currentPath) es")
       (auto simp: expected_tree.simps)
next
  case (2 currentPath relativePath name)
  then show ?case by simp
next
  case (3 currentPath relativePath name n r sub rest)
  have n: "valid_name n" and sub: "wf_entries sub" and rest: "wf_entries rest"
    using 3(3) by auto
  have "valid_or_empty n"
    using n by (simp add: valid_or_empty_def)
  then have chain': "list_all valid_or_empty (chain @ [n])"
    using 3(4) by simp
  have rp': "path_join [relativePath, name] = path_join chain"
    using 3(5)[of "[]"] by simp
  have inv': "path_join (path_join [relativePath, name] # path_basename (path_join [currentPath, n]) # zs)
                = path_join ((chain @ [n]) @ zs)" if "list_all valid_name zs" for zs
    using path_join_assoc[OF 3(4), of "n # zs"] that n
    by (simp add: rp' basename_join)
  have a: "map node_path (tree_leaves (expected_tree (path_join [currentPath, n])
              (path_join [relativePath, name]) sub)) =
        map (\<lambda>f. Some (replace_backslashes (path_join ((chain @ [n]) @ pf_dirs f @ [pf_name f]))))
          (filter included (page_files sub))"
    using 3(1)[OF sub chain' inv'] by simp
  have b: "map node_path (concat (map leaves (expected_children currentPath relativePath name rest))) =
        map (\<lambda>f. Some (replace_backslashes (path_join (chain @ pf_dirs f @ [pf_name f]))))
          (filter included (page_files rest))"
    using 3(2)[OF rest 3(4) 3(5)] by simp
  from a b show ?case
    by (cases "expected_tree (path_join [currentPath, n]) (path_join [relativePath, name]) sub")
       (auto simp: filter_included_below comp_def)
next
  case (4 currentPath relativePath name n c rest)
  have n: "valid_name n" and rest: "wf_entries rest"
    using 4(2) by auto
  have b: "map node_path (concat (map leaves (expected_children currentPath relativePath name rest))) =
        map (\<lambda>f. Some (replace_backslashes (path_join (chain @ pf_dirs f @ [pf_name f]))))
          (filter included (page_files rest))"
    using 4(1)[OF rest 4(3) 4(4)] by simp
  have "path_join [relativePath, name, n] = path_join (chain @ [n])"
    using 4(4)[of "[n]"] n by simp
  with b show ?case
    by (auto split: option.splits)
next
  case (5 currentPath relativePath name n rest)
  from 5(1)[OF _ 5(3) 5(4)] 5(2) show ?case by simp
next
  case (6 currentPath relativePath name n target rest)
  from 6(1)[OF _ 6(3) 6(4)] 6(2) show ?case by simp
qed

lemma walk_error:
  "snd (buildTree cp rp readable es out) = Inl e \<Longrightarrow> is_read_error e"
  "snd (scan_entries cp rp name es children out) = Inl e \<Longrightarrow> is_read_error e"
proof (induction cp rp readable es out and cp rp name es children out
       rule: buildTree_scan_entries.induct)
  case (1 currentPath relativePath readable entries out)
  then show ?case
    by (auto simp: Let_def split: if_splits prod.splits sum.splits)
next
  case (2 currentPath relativePath name children out)
  then show ?case by simp
next
  case (3 currentPath relativePath name n r es rest children out)
  then show ?case
    by (auto split: prod.splits sum.splits)
next
  case (4 currentPath relativePath name n content rest children out)
  then show ?case
    by (auto simp: Let_def split: if_splits option.splits)
next
  case (5 currentPath relativePath name n rest children out)
  then show ?case by simp
next
  case (6 currentPath relativePath name n target rest children out)
  then show ?case by simp
qed

lemma walk_succeeds:
  assumes "buildTree cp rp readable es out = (out', Inr t)"
  shows "readable \<and> \<not> any_access_fails es \<and> t = expected_tree cp rp es"
proof -
  have "\<not> (\<not> readable \<or> any_access_fails es)"
    using walk_result(1)[of readable es cp rp out] assms by auto
  then show ?thesis
    using walk_result(1)[of readable es cp rp out] assms by auto
qed

lemma wf_entries_mem: "wf_entries es \<Longrightarrow> e \<in> set es \<Longrightarrow> wf_entry e"
  by (induction es) auto

lemma wf_entries_same_name:
  "wf_entries es \<Longrightarrow> e1 \<in> set es \<Longrightarrow> e2 \<in> set es \<Longrightarrow> entry_name e1 = entry_name e2 \<Longrightarrow> e1 = e2"
  by (induction es) (auto simp: list_ex_iff)

lemma dir_at_Cons:
  "dir_at es (d # p) target \<longleftrightarrow> (\<exists>r sub. Directory d r sub \<in> set es \<and> dir_at sub p target)"
  by (induction es) (auto split: dirent.splits)

lemma dir_at_unique:
  "wf_entries es \<Longrightarrow> dir_at es p s1 \<Longrightarrow> dir_at es p s2 \<Longrightarrow> s1 = s2"
proof (induction p arbitrary: es)
  case Nil
  then show ?case by simp
next
  case (Cons d p)
  from Cons.prems(2) obtain r1 sub1 where 1: "Directory d r1 sub1 \<in> set es" "dir_at sub1 p s1"
    unfolding dir_at_Cons by blast
  from Cons.prems(3) obtain r2 sub2 where 2: "Directory d r2 sub2 \<in> set es" "dir_at sub2 p s2"
    unfolding dir_at_Cons by blast
  have "Directory d r1 sub1 = Directory d r2 sub2"
    using wf_entries_same_name[OF Cons.prems(1) 1(1) 2(1)] by simp
  then have eq: "sub1 = sub2" by simp
  have "wf_entries sub1"
    using wf_entries_mem[OF Cons.prems(1) 1(1)] by simp
  from Cons.IH[OF this 1(2)] 2(2) eq show ?case by simp
qed

lemma folder_children:
  "wf_entries es \<Longrightarrow>
   list_ex (\<lambda>c. case c of Folder m cs' \<Rightarrow> m = d \<and> folder_at c p | _ \<Rightarrow> False)
     (expected_children cp rp name es) \<longleftrightarrow>
   (\<exists>r sub c. Directory d r sub \<in> set es \<and>
      expected_tree (path_join [cp, d]) (path_join [rp, name]) sub = Some c \<and> folder_at c p)"
proof (induction es rule: page_files.induct)
  case 1
  then show ?case by simp
next
  case (2 n r sub rest)
  have n: "valid_name n" and rest: "wf_entries rest"
    using "2.prems" by auto
  show ?case
  proof (cases "expected_tree (path_join [cp, n]) (path_join [rp, name]) sub")
    case None
    with "2.IH"(2)[OF rest] show ?thesis by auto
  next
    case (Some c)
    then have "c = Folder n (expected_children (path_join [cp, n]) (path_join [rp, name]) n sub)"
      using expected_tree_Folder[OF Some] n by (simp add: basename_join)
    with Some "2.IH"(2)[OF rest] show ?thesis by auto
  qed
next
  case (3 n c rest)
  then show ?case by (auto split: option.splits)
next
  case (4 n rest)
  then show ?case by auto
next
  case (5 n target rest)
  then show ?case by auto
qed

lemma folder_at_iff:
  "wf_entries es \<Longrightarrow>
   (\<exists>t. expected_tree cp rp es = Some t \<and> folder_at t p) \<longleftrightarrow>
   (\<exists>sub. dir_at es p sub \<and> any_qualifies sub)"
proof (induction p arbitrary: cp rp es)
  case Nil
  have "(\<exists>t. expected_tree cp rp es = Some t \<and> folder_at t []) \<longleftrightarrow> expected_tree cp rp es \<noteq> None"
    using expected_tree_Folder[of cp rp es] by auto
  then show ?case using expected_qualifies(1)[of cp rp es] by auto
next
  case (Cons d p)
  let ?name = "path_basename cp"
  let ?kids = "expected_children cp rp ?name es"
  let ?hit = "list_ex (\<lambda>c. case c of Folder m cs' \<Rightarrow> m = d \<and> folder_at c p | _ \<Rightarrow> False) ?kids"
  have lhs: "(\<exists>t. expected_tree cp rp es = Some t \<and> folder_at t (d # p)) \<longleftrightarrow> ?hit"
  proof
    assume "\<exists>t. expected_tree cp rp es = Some t \<and> folder_at t (d # p)"
    then obtain t where t: "expected_tree cp rp es = Some t" "folder_at t (d # p)" by blast
    from expected_tree_Folder[OF t(1)] t(2) show ?hit by simp
  next
    assume h: ?hit
    then have "?kids \<noteq> []" by auto
    then obtain c cs where "?kids = c # cs" by (cases ?kids) auto
    then have "expected_tree cp rp es = Some (Folder ?name ?kids)"
      by (simp add: expected_tree.simps)
    with h show "\<exists>t. expected_tree cp rp es = Some t \<and> folder_at t (d # p)" by simp
  qed
  have "?hit \<longleftrightarrow> (\<exists>r sub. Directory d r sub \<in> set es \<and>
           (\<exists>c. expected_tree (path_join [cp, d]) (path_join [rp, ?name]) sub = Some c \<and> folder_at c p))"
    using folder_children[OF Cons.prems] by blast
  also have "\<dots> \<longleftrightarrow> (\<exists>r sub. Directory d r sub \<in> set es \<and>
           (\<exists>sub'. dir_at sub p sub' \<and> any_qualifies sub'))"
  proof -
    have "wf_entries sub" if "Directory d r sub \<in> set es" for r sub
      using wf_entries_mem[OF Cons.prems that] by simp
    then show ?thesis using Cons.IH by blast
  qed
  also have "\<dots> \<longleftrightarrow> (\<exists>sub'. dir_at es (d # p) sub' \<and> any_qualifies sub')"
    unfolding dir_at_Cons by blast
  finally show ?case using lhs by simp
qed

lemma basename_no_slash: "slash \<notin> set (path_basename p)"
proof -
  have "slash \<notin> set (takeWhile (\<lambda>c. c \<noteq> slash) xs)" for xs
    by (induction xs) auto
  then show ?thesis by (simp add: path_basename_def)
qed

subsection \<open>The example projects, evaluated\<close>

lemmas regex_eval =
  str_def title_rx_def sitemap_rx_def seq_def lit_def Plus_def regexp_test_def trim_def quotes_def
  step1_def char_match_def canonicalize_def is_white_space_def is_line_terminator_def

lemmas path_eval =
  path_join_def path_normalize_def normalizeString_def normalize_step_def path_basename_def
  slash_def replace_backslashes_def endsWith_def is_page_name_def

lemma ex_home_meta: "checkSitemapMeta ex_home = \<lparr>include = True, exclude = False\<rparr>"
  by (simp add: checkSitemapMeta_def ex_home_def regex_eval)

lemma ex_home_title: "extractTitle ex_home = Some (str ''A'')"
  by (simp add: extractTitle_def ex_home_def regex_eval)

lemma ex_excluded_meta: "checkSitemapMeta ex_excluded = \<lparr>include = False, exclude = True\<rparr>"
  by (simp add: checkSitemapMeta_def ex_excluded_def regex_eval)

lemma ex_unmarked_meta: "checkSitemapMeta ex_unmarked = \<lparr>include = False, exclude = False\<rparr>"
  by (simp add: checkSitemapMeta_def ex_unmarked_def regex_eval)

lemma ex_both_meta: "checkSitemapMeta ex_both = \<lparr>include = True, exclude = True\<rparr>"
  by (simp add: checkSitemapMeta_def ex_both_def regex_eval)

lemma ex_both_title: "extractTitle ex_both = None"
  by (simp add: extractTitle_def ex_both_def regex_eval)

lemmas ex_pages = ex_home_meta ex_home_title ex_excluded_meta ex_unmarked_meta ex_both_meta ex_both_title

lemma ex_site_walk:
  "buildTree (str ''/home/u/site'') [] True ex_site [] = (ex_console, Inr (Some ex_tree))"
  by (simp add: ex_site_def ex_tree_def ex_console_def ex_pages path_eval str_def falsy_def or_else_def)

subsection \<open>Writing\<close>

lemma entry_name_with_target:
  "entry_name (with_target e d) = (case e of Link n target \<Rightarrow> n | other \<Rightarrow> entry_name d)"
  by (cases e) auto

lemma resolved_with_target: "resolved d = Some d \<Longrightarrow> resolved (with_target e d) = Some d"
  by (cases e) auto

lemma write_file_text: "write_file es f data = Some es' \<Longrightarrow> file_text es' [f] = Some data"
proof (induction es arbitrary: es')
  case Nil
  then show ?case by auto
next
  case (Cons e es)
  show ?case
  proof (cases "entry_name e = f")
    case False
    with Cons show ?thesis by auto
  next
    case True
    with Cons.prems show ?thesis
      by (cases e) (auto split: option.splits dirent.splits)
  qed
qed

lemma write_path_text: "write_path es p data = Some es' \<Longrightarrow> file_text es' p = Some data"
proof (induction es p data arbitrary: es' rule: write_path.induct)
  case (1 es data)
  then show ?case by simp
next
  case (2 es f data)
  then show ?case by (simp add: write_file_text)
next
  case (3 d f p data)
  then show ?case by simp
next
  case (4 e es d f p data)
  show ?case
  proof (cases "entry_name e = d")
    case False
    with 4 show ?thesis by auto
  next
    case True
    with "4.prems" obtain n r sub sub' where
      r: "resolved e = Some (Directory n r sub)" and
      w: "write_path sub (f # p) data = Some sub'" and
      es': "es' = with_target e (Directory n r sub') # es"
      by (auto split: option.splits dirent.splits)
    have "file_text sub' (f # p) = Some data"
      using "4.IH"(1)[OF True r refl w] .
    moreover have "entry_name (with_target e (Directory n r sub')) = d"
      using True r by (cases e) auto
    ultimately show ?thesis
      unfolding es' by (simp add: resolved_with_target)
  qed
qed

lemma write_path_no_directory:
  "\<not> list_ex (\<lambda>e. entry_name e = d) es \<Longrightarrow> write_path es (d # f # p) data = None"
  by (induction es) auto

lemma run_walk_failed:
  assumes "snd (buildTree (cwd w) [] (root_readable w) (root w) (console w @ [(Log, Scanning)])) = Inl e"
  shows "run w = w\<lparr>console :=
           fst (buildTree (cwd w) [] (root_readable w) (root w) (console w @ [(Log, Scanning)]))
             @ [(Error, ExportFailed e)]\<rparr>"
  using assms
  by (cases "buildTree (cwd w) [] (root_readable w) (root w) (console w @ [(Log, Scanning)])")
     (simp add: run_def Let_def del: buildTree.simps)

lemma run_walk_done:
  assumes "buildTree (cwd w) [] (root_readable w) (root w) (console w @ [(Log, Scanning)]) =
             (out, Inr t)"
  shows "run w =
           (case writeFileSync (w\<lparr>console := out\<rparr>) outputFile_components (JSON_stringify t) of
              Inl err \<Rightarrow> w\<lparr>console := out @ [(Error, ExportFailed err)]\<rparr>
            | Inr w' \<Rightarrow> w'\<lparr>console := out @ [(Log, ExportComplete (outputFile (cwd w)))]\<rparr>)"
  using assms by (simp add: run_def Let_def del: buildTree.simps)

lemma walk_returns:
  assumes "readable" and "\<not> any_access_fails es"
  shows "\<exists>out'. buildTree cp rp readable es out = (out', Inr (expected_tree cp rp es))"
proof -
  have "snd (buildTree cp rp readable es out) = Inr (expected_tree cp rp es)"
    using walk_result(1)[of readable es cp rp out] assms by simp
  then show ?thesis
    by (cases "buildTree cp rp readable es out") simp
qed

subsection \<open>A failed walk writes nothing\<close>

text \<open>
  Claim C8. When a filesystem access of the walk fails (the scan root or a directory below
  it cannot be enumerated, or a page file cannot be read), the run writes nothing: what is
  on disk below the scan root, the output file included, is as it was, and the last thing
  the run does is print the read error with \<^verbatim>\<open>console.error\<close>.
\<close>

theorem failed_walk_writes_nothing:
  assumes "\<not> root_readable w \<or> any_access_fails (root w)"
  shows "root (run w) = root w \<and>
         file_text (root (run w)) outputFile_components = file_text (root w) outputFile_components \<and>
         (\<exists>out e. console (run w) = out @ [(Error, ExportFailed e)] \<and> is_read_error e)"
proof -
  let ?walk = "buildTree (cwd w) [] (root_readable w) (root w) (console w @ [(Log, Scanning)])"
  obtain e where e: "snd ?walk = Inl e"
    using walk_result(1)[of "root_readable w" "root w" "cwd w" "[]" "console w @ [(Log, Scanning)]"] assms
    by blast
  have "is_read_error e"
    using e by (rule walk_error(1))
  then show ?thesis
    using run_walk_failed[OF e] by simp
qed

theorem failed_walk_writes_nothing_witness:
  "any_access_fails (root ex_broken) \<and>
   file_text (root (run ex_broken)) outputFile_components = Some (str ''null'') \<and>
   (\<exists>out e. console (run ex_broken) = out @ [(Error, ExportFailed e)] \<and> is_read_error e)"
proof -
  have h: "\<not> root_readable ex_broken \<or> any_access_fails (root ex_broken)"
    by (simp add: ex_broken_def)
  have "file_text (root ex_broken) outputFile_components = Some (str ''null'')"
    by (simp add: ex_broken_def outputFile_components_def str_def)
  with failed_walk_writes_nothing[OF h] h show ?thesis
    by (simp add: ex_broken_def)
qed

subsection \<open>Pruning\<close>

text \<open>
  Claim C1. When the walk returns, it returns a node exactly if the directory holds, at any
  depth, a page classified Include (for every call of \<open>buildTree\<close>, so for every
  directory the walk enters); and for every directory below the scan root, reached by the
  chain of names \<open>p\<close>, the returned tree has a directory node at \<open>p\<close> exactly
  if that directory holds, at any depth, a page classified Include.
\<close>

theorem directory_node_iff_included_page:
  assumes "buildTree cp rp readable es out = (out', Inr t)" and "wf_entries es"
  shows "(t \<noteq> None \<longleftrightarrow> any_qualifies es) \<and>
         (\<forall>p sub. dir_at es p sub \<longrightarrow>
            ((\<exists>n. t = Some n \<and> folder_at n p) \<longleftrightarrow> any_qualifies sub))"
proof -
  have t: "t = expected_tree cp rp es"
    using walk_succeeds[OF assms(1)] by simp
  have "(\<exists>n. t = Some n \<and> folder_at n p) \<longleftrightarrow> any_qualifies sub" if "dir_at es p sub" for p sub
  proof -
    have "(\<exists>n. t = Some n \<and> folder_at n p) \<longleftrightarrow> (\<exists>s. dir_at es p s \<and> any_qualifies s)"
      unfolding t by (rule folder_at_iff[OF assms(2)])
    also have "\<dots> \<longleftrightarrow> any_qualifies sub"
      using dir_at_unique[OF assms(2) that] that by blast
    finally show ?thesis .
  qed
  moreover have "t \<noteq> None \<longleftrightarrow> any_qualifies es"
    using expected_qualifies(1)[of cp rp es] t by simp
  ultimately show ?thesis by blast
qed

lemma ex_site_wf: "wf_entries ex_site"
  by (simp add: ex_site_def valid_name_def str_def slash_def)

theorem directory_node_iff_included_page_witness:
  "wf_entries ex_site \<and>
   buildTree (str ''/home/u/site'') [] True ex_site [] = (ex_console, Inr (Some ex_tree)) \<and>
   any_qualifies ex_site \<and>
   dir_at ex_site [str ''x'', str ''y''] [File (str ''z.html'') (Some ex_both)] \<and>
   folder_at ex_tree [str ''x'', str ''y''] \<and>
   dir_at ex_site [str ''sub'']
     [File (str ''b.html'') (Some ex_excluded), File (str ''c.html'') (Some ex_unmarked)] \<and>
   \<not> folder_at ex_tree [str ''sub'']"
proof -
  note main = directory_node_iff_included_page[OF ex_site_walk ex_site_wf]
  have d1: "dir_at ex_site [str ''x'', str ''y''] [File (str ''z.html'') (Some ex_both)]"
    by (simp add: ex_site_def str_def)
  have d2: "dir_at ex_site [str ''sub'']
     [File (str ''b.html'') (Some ex_excluded), File (str ''c.html'') (Some ex_unmarked)]"
    by (simp add: ex_site_def str_def)
  have q1: "any_qualifies [File (str ''z.html'') (Some ex_both)]"
    by (simp add: classify_def ex_pages is_page_name_def endsWith_def str_def)
  have q2: "\<not> any_qualifies
     [File (str ''b.html'') (Some ex_excluded), File (str ''c.html'') (Some ex_unmarked)]"
    by (simp add: classify_def ex_pages)
  from main d1 q1 have "folder_at ex_tree [str ''x'', str ''y'']" by blast
  moreover from main d2 q2 have "\<not> folder_at ex_tree [str ''sub'']" by blast
  moreover from main have "any_qualifies ex_site" by blast
  ultimately show ?thesis
    using ex_site_walk ex_site_wf d1 d2 by simp
qed

lemma page_files_names: "f \<in> set (page_files es) \<Longrightarrow> is_page_name (pf_name f)"
  by (induction es arbitrary: f rule: page_files.induct) (auto split: option.splits if_splits)

lemma page_name_nonempty: "is_page_name n \<Longrightarrow> n \<noteq> []"
  by (auto simp: is_page_name_def endsWith_def str_def)

lemma or_else_nonempty: "d \<noteq> [] \<Longrightarrow> or_else t d \<noteq> []"
  by (simp add: or_else_def split: option.splits)

lemma included_page_has_leaf:
  assumes "f \<in> set (page_files es)" and "included f"
  shows "\<exists>p. Page (pf_name f) p (or_else (extractTitle (pf_text f)) (pf_name f)) True
              \<in> set (tree_leaves (expected_tree cp rp es))"
proof -
  let ?info = "\<lambda>l. (node_name l, node_title l, node_sitemap l)"
  let ?want = "(pf_name f, Some (or_else (extractTitle (pf_text f)) (pf_name f)), Some True)"
  have "?want \<in> set (map (\<lambda>f. (pf_name f, Some (or_else (extractTitle (pf_text f)) (pf_name f)), Some True))
                         (filter included (page_files es)))"
    using assms by force
  then have "?want \<in> set (map ?info (tree_leaves (expected_tree cp rp es)))"
    by (simp only: expected_leaves(1))
  then obtain l where l: "l \<in> set (tree_leaves (expected_tree cp rp es))" "?info l = ?want"
    by auto
  from l(2) obtain a b c d where "l = Page a b c d"
    by (cases l) auto
  with l show ?thesis by auto
qed

lemma walk_has_leaf:
  assumes "readable" and "\<not> any_access_fails es"
      and "f \<in> set (page_files es)" and "included f"
  shows "\<exists>out' t p. buildTree cp rp readable es out = (out', Inr (Some t)) \<and>
           Page (pf_name f) p (or_else (extractTitle (pf_text f)) (pf_name f)) True \<in> set (leaves t)"
proof -
  obtain out' where w: "buildTree cp rp readable es out = (out', Inr (expected_tree cp rp es))"
    using walk_returns[OF assms(1,2)] by blast
  obtain p where p: "Page (pf_name f) p (or_else (extractTitle (pf_text f)) (pf_name f)) True
                       \<in> set (tree_leaves (expected_tree cp rp es))"
    using included_page_has_leaf[OF assms(3,4)] by blast
  then obtain t where "expected_tree cp rp es = Some t"
    by (cases "expected_tree cp rp es") auto
  with w p show ?thesis by auto
qed

lemma ex_site_both: "\<lparr>pf_dirs = [str ''x'', str ''y''], pf_name = str ''z.html'', pf_text = ex_both\<rparr>
    \<in> set (page_files ex_site)"
  by (simp add: ex_site_def below_def is_page_name_def endsWith_def str_def)

lemma ex_site_readable: "\<not> any_access_fails ex_site"
  by (simp add: ex_site_def)

subsection \<open>Pages in the tree\<close>

text \<open>
  Claim C4. When no filesystem access of the walk fails, the walk returns a tree, and for
  every page file classified Include that tree has a leaf node with the name of the file,
  \<^verbatim>\<open>sitemap: true\<close> and a title that is not empty: the extracted title when there is
  one and it is not empty, the name of the file otherwise.
  (\<open>page_files\<close> lists the page files below the directory, at every depth.)
\<close>

theorem included_page_leaf:
  assumes "readable" and "\<not> any_access_fails es"
      and "f \<in> set (page_files es)"
      and "classify (pf_text f) = Include"
  shows "\<exists>out' t p ttl.
           buildTree cp rp readable es out = (out', Inr (Some t)) \<and>
           Page (pf_name f) p ttl True \<in> set (leaves t) \<and> ttl \<noteq> [] \<and>
           ttl = (case extractTitle (pf_text f) of
                    None \<Rightarrow> pf_name f
                  | Some x \<Rightarrow> if x = [] then pf_name f else x)"
proof -
  have inc: "included f"
    using assms(4) by (simp add: included_def)
  let ?ttl = "or_else (extractTitle (pf_text f)) (pf_name f)"
  have "?ttl \<noteq> []"
    using page_files_names[OF assms(3)] by (simp add: or_else_nonempty page_name_nonempty)
  moreover have "?ttl = (case extractTitle (pf_text f) of
                    None \<Rightarrow> pf_name f
                  | Some x \<Rightarrow> if x = [] then pf_name f else x)"
    by (simp add: or_else_def)
  ultimately show ?thesis
    using walk_has_leaf[OF assms(1,2,3) inc, of cp rp out] by metis
qed

lemma ex_site_home: "\<lparr>pf_dirs = [], pf_name = str ''a.html'', pf_text = ex_home\<rparr>
    \<in> set (page_files ex_site)"
  by (simp add: ex_site_def below_def is_page_name_def endsWith_def str_def)

theorem included_page_leaf_witness:
  "\<not> any_access_fails ex_site \<and>
   classify ex_home = Include \<and> classify ex_both = Include \<and>
   extractTitle ex_home = Some (str ''A'') \<and> extractTitle ex_both = None \<and>
   buildTree (str ''/home/u/site'') [] True ex_site [] = (ex_console, Inr (Some ex_tree)) \<and>
   (\<exists>p ttl. Page (str ''a.html'') p ttl True \<in> set (leaves ex_tree) \<and> ttl \<noteq> [] \<and>
      ttl = str ''A'') \<and>
   (\<exists>p ttl. Page (str ''z.html'') p ttl True \<in> set (leaves ex_tree) \<and> ttl \<noteq> [] \<and>
      ttl = str ''z.html'')"
proof -
  have a: "classify ex_home = Include" and b: "classify ex_both = Include"
    by (simp_all add: classify_def ex_pages)
  have "\<exists>p ttl. Page (str ''a.html'') p ttl True \<in> set (leaves ex_tree) \<and> ttl \<noteq> [] \<and>
      ttl = str ''A''"
    using included_page_leaf[OF TrueI ex_site_readable ex_site_home, of "str ''/home/u/site''" "[]" "[]"]
      a ex_site_walk
    by (simp add: ex_pages str_def)
  moreover have "\<exists>p ttl. Page (str ''z.html'') p ttl True \<in> set (leaves ex_tree) \<and> ttl \<noteq> [] \<and>
      ttl = str ''z.html''"
    using included_page_leaf[OF TrueI ex_site_readable ex_site_both, of "str ''/home/u/site''" "[]" "[]"]
      b ex_site_walk
    by (simp add: ex_pages str_def)
  ultimately show ?thesis
    using a b ex_site_walk ex_site_readable by (simp add: ex_pages)
qed

text \<open>
  Claim C5. The leaf nodes of the tree the walk returns are, in the order of the walk and one
  for one, the page files classified Include: a page classified Exclude or Unspecified has
  no node.
\<close>

theorem leaves_are_the_included_pages:
  assumes "buildTree cp rp readable es out = (out', Inr t)"
  shows "map (\<lambda>l. (node_name l, node_title l, node_sitemap l)) (tree_leaves t) =
         map (\<lambda>f. (pf_name f, Some (or_else (extractTitle (pf_text f)) (pf_name f)), Some True))
           (filter (\<lambda>f. classify (pf_text f) = Include) (page_files es))"
proof -
  have t: "t = expected_tree cp rp es"
    using walk_succeeds[OF assms(1)] by simp
  have "filter (\<lambda>f. classify (pf_text f) = Include) (page_files es) = filter included (page_files es)"
    by (simp add: included_def[abs_def])
  then show ?thesis
    unfolding t by (simp only: expected_leaves(1))
qed

theorem leaves_are_the_included_pages_witness:
  "map pf_name (page_files ex_site) = [str ''a.html'', str ''b.html'', str ''c.html'', str ''z.html''] \<and>
   map (\<lambda>f. classify (pf_text f)) (page_files ex_site) = [Include, Exclude, Unspecified, Include] \<and>
   map (\<lambda>l. (node_name l, node_title l, node_sitemap l)) (tree_leaves (Some ex_tree)) =
     [(str ''a.html'', Some (str ''A''), Some True), (str ''z.html'', Some (str ''z.html''), Some True)]"
proof -
  have "page_files ex_site =
     [\<lparr>pf_dirs = [], pf_name = str ''a.html'', pf_text = ex_home\<rparr>,
      \<lparr>pf_dirs = [str ''sub''], pf_name = str ''b.html'', pf_text = ex_excluded\<rparr>,
      \<lparr>pf_dirs = [str ''sub''], pf_name = str ''c.html'', pf_text = ex_unmarked\<rparr>,
      \<lparr>pf_dirs = [str ''x'', str ''y''], pf_name = str ''z.html'', pf_text = ex_both\<rparr>]"
    by (simp add: ex_site_def below_def is_page_name_def endsWith_def str_def)
  with leaves_are_the_included_pages[OF ex_site_walk] show ?thesis
    by (simp add: classify_def ex_pages or_else_def str_def)
qed


text \<open>
  Claim C10, as amended. On a well-formed listing, and for a scan root whose base name is
  not a dot entry, the \<^verbatim>\<open>path\<close> of the leaf of every included page is the
  forward-slash join of those of the root's base name, the names of the directories on the
  way and the file name that are not empty, with every backslash in it replaced by a slash.
  As stated (the plain join of the names) the claim fails for a file name with a backslash
  in it, which POSIX allows.
\<close>

theorem leaf_path_is_joined_names:
  assumes "buildTree cp [] readable es out = (out', Inr t)"
      and "wf_entries es"
      and "path_basename cp \<noteq> str ''.''" and "path_basename cp \<noteq> str ''..''"
  shows "map node_path (tree_leaves t) =
         map (\<lambda>f. Some (replace_backslashes
                    (join_with [slash]
                       (filter (\<lambda>s. s \<noteq> []) (path_basename cp # pf_dirs f @ [pf_name f])))))
           (filter (\<lambda>f. classify (pf_text f) = Include) (page_files es))"
proof -
  let ?root = "path_basename cp"
  have t: "t = expected_tree cp [] es"
    using walk_succeeds[OF assms(1)] by simp
  have root: "valid_or_empty ?root"
    using assms(3,4) basename_no_slash[of cp] by (simp add: valid_or_empty_def valid_name_def)
  have inv: "path_join ([] # ?root # zs) = path_join ([?root] @ zs)" for zs
    by (simp add: path_join_def)
  have paths: "map node_path (tree_leaves t) =
      map (\<lambda>f. Some (replace_backslashes (path_join ([?root] @ pf_dirs f @ [pf_name f]))))
        (filter included (page_files es))"
    unfolding t using expected_paths(1)[OF assms(2), of "[?root]" "[]" cp] root inv by simp
  have "path_join ([?root] @ pf_dirs f @ [pf_name f]) =
        join_with [slash] (filter (\<lambda>s. s \<noteq> []) (?root # pf_dirs f @ [pf_name f]))"
    if "f \<in> set (page_files es)" for f
  proof -
    have v: "list_all valid_name (pf_dirs f)" "valid_name (pf_name f)"
      using wf_entries_page_files[OF assms(2) that] by simp_all
    then have "list_all valid_or_empty (?root # pf_dirs f @ [pf_name f])"
      using root by (simp add: valid_or_empty_def list_all_iff)
    moreover have "filter (\<lambda>s. s \<noteq> []) (?root # pf_dirs f @ [pf_name f]) \<noteq> []"
      using v(2) by (simp add: valid_name_def)
    ultimately show ?thesis
      using path_join_valid by simp
  qed
  then have "map (\<lambda>f. Some (replace_backslashes (path_join ([?root] @ pf_dirs f @ [pf_name f]))))
        (filter included (page_files es)) =
      map (\<lambda>f. Some (replace_backslashes
                    (join_with [slash]
                       (filter (\<lambda>s. s \<noteq> []) (?root # pf_dirs f @ [pf_name f])))))
        (filter included (page_files es))"
    by (intro map_cong) auto
  with paths show ?thesis
    by (simp add: included_def[abs_def])
qed

theorem leaf_path_is_joined_names_witness:
  "wf_entries ex_site \<and> path_basename (str ''/home/u/site'') = str ''site'' \<and>
   map node_path (tree_leaves (Some ex_tree)) =
     [Some (join_with [slash] [str ''site'', str ''a.html'']),
      Some (join_with [slash] [str ''site'', str ''x'', str ''y'', str ''z.html''])]"
proof -
  have b: "path_basename (str ''/home/u/site'') = str ''site''"
    by (simp add: path_basename_def str_def slash_def)
  have pf: "filter (\<lambda>f. classify (pf_text f) = Include) (page_files ex_site) =
     [\<lparr>pf_dirs = [], pf_name = str ''a.html'', pf_text = ex_home\<rparr>,
      \<lparr>pf_dirs = [str ''x'', str ''y''], pf_name = str ''z.html'', pf_text = ex_both\<rparr>]"
    by (simp add: ex_site_def below_def is_page_name_def endsWith_def classify_def ex_pages str_def)
  have "path_basename (str ''/home/u/site'') \<noteq> str ''.''"
       "path_basename (str ''/home/u/site'') \<noteq> str ''..''"
    unfolding b by (simp_all add: str_def)
  from leaf_path_is_joined_names[OF ex_site_walk ex_site_wf this] show ?thesis
    by (simp add: pf ex_site_wf replace_backslashes_def path_basename_def str_def slash_def)
qed

theorem leaf_path_backslash_counterexample:
  "snd (buildTree (str ''/r'') [] True [File ex_backslash_name (Some ex_home)] []) =
     Inr (Some (Folder (str ''r'') [Page ex_backslash_name (str ''r/a/b.html'') (str ''A'') True])) \<and>
   str ''r/a/b.html'' \<noteq> join_with [slash] [str ''r'', ex_backslash_name]"
  by (simp add: ex_backslash_name_def ex_pages path_eval str_def falsy_def or_else_def)

subsection \<open>The output directory\<close>

text \<open>
  Claim C7 says the output directory is created when it is missing. The script does not
  create it: when the walk succeeds and the scan root has no entry named
  \<^verbatim>\<open>assets\<close>, the write fails, nothing on disk changes and the run ends by printing
  the write error.
\<close>

theorem missing_output_directory_is_not_created:
  assumes "root_readable w" and "\<not> any_access_fails (root w)"
      and "\<not> list_ex (\<lambda>e. entry_name e = str ''assets'') (root w)"
  shows "root (run w) = root w \<and>
         (\<exists>out. console (run w) =
            out @ [(Error, ExportFailed (WriteFileError (outputFile (cwd w))))])"
proof -
  obtain out where walk:
    "buildTree (cwd w) [] (root_readable w) (root w) (console w @ [(Log, Scanning)]) =
       (out, Inr (expected_tree (cwd w) [] (root w)))"
    using walk_returns[OF assms(1,2)] by blast
  have "write_path (root w) outputFile_components data = None" for data
    using assms(3) by (simp add: outputFile_components_def write_path_no_directory)
  then have "writeFileSync (w\<lparr>console := out\<rparr>) outputFile_components data =
               Inl (WriteFileError (outputFile (cwd w)))" for data
    by (simp add: writeFileSync_def outputFile_def)
  then have "run w = w\<lparr>console := out @ [(Error, ExportFailed (WriteFileError (outputFile (cwd w))))]\<rparr>"
    using run_walk_done[OF walk] by simp
  then show ?thesis by simp
qed

theorem missing_output_directory_is_not_created_witness:
  "root_readable ex_no_assets \<and> \<not> any_access_fails (root ex_no_assets) \<and>
   any_qualifies (root ex_no_assets) \<and>
   root (run ex_no_assets) = [File (str ''a.html'') (Some ex_home)] \<and>
   file_text (root (run ex_no_assets)) outputFile_components = None \<and>
   (\<exists>out. console (run ex_no_assets) =
      out @ [(Error, ExportFailed (WriteFileError (str ''/home/u/site/assets/data/tree.json'')))])"
proof -
  have h: "root_readable ex_no_assets" "\<not> any_access_fails (root ex_no_assets)"
      "\<not> list_ex (\<lambda>e. entry_name e = str ''assets'') (root ex_no_assets)"
    by (simp_all add: ex_no_assets_def is_page_name_def endsWith_def str_def)
  have q: "any_qualifies (root ex_no_assets)"
    by (simp add: ex_no_assets_def is_page_name_def endsWith_def classify_def ex_pages str_def)
  have o: "outputFile (cwd ex_no_assets) = str ''/home/u/site/assets/data/tree.json''"
    by (simp add: ex_no_assets_def outputFile_def outputFile_components_def path_eval str_def)
  from missing_output_directory_is_not_created[OF h] h q show ?thesis
    by (simp add: o) (simp add: ex_no_assets_def outputFile_components_def str_def)
qed

text \<open>
  Claim C9, as amended. When no filesystem access of the walk fails and no page below the
  scan root is classified Include (an empty project, for one), \<open>buildTree\<close> returns
  \<^verbatim>\<open>null\<close> and the run hands the JSON document \<^verbatim>\<open>null\<close> to the write of the output
  file, and reports how that write ends; when the write succeeds, the text of the output
  file after the run is exactly \<^verbatim>\<open>null\<close>. As stated the claim fails: with a page
  file that cannot be read the run writes nothing, and so it does when the operating system
  refuses the write.
\<close>

theorem nothing_included_writes_null:
  assumes "root_readable w" and "\<not> any_access_fails (root w)"
      and "\<not> any_qualifies (root w)"
  shows "\<exists>out.
           buildTree (cwd w) [] (root_readable w) (root w) (console w @ [(Log, Scanning)]) =
             (out, Inr None) \<and>
           run w =
             (case writeFileSync (w\<lparr>console := out\<rparr>) outputFile_components (str ''null'') of
                Inl err \<Rightarrow> w\<lparr>console := out @ [(Error, ExportFailed err)]\<rparr>
              | Inr w' \<Rightarrow> w'\<lparr>console := out @ [(Log, ExportComplete (outputFile (cwd w)))]\<rparr>) \<and>
           ((\<exists>w'. writeFileSync w outputFile_components (str ''null'') = Inr w') \<longrightarrow>
              file_text (root (run w)) outputFile_components = Some (str ''null''))"
proof -
  have none: "expected_tree (cwd w) [] (root w) = None"
    using expected_qualifies(1)[of "cwd w" "[]" "root w"] assms(3) by simp
  obtain out where walk:
    "buildTree (cwd w) [] (root_readable w) (root w) (console w @ [(Log, Scanning)]) =
       (out, Inr None)"
    using walk_returns[OF assms(1,2), of "cwd w" "[]" "console w @ [(Log, Scanning)]"] none by auto
  have r: "run w =
      (case writeFileSync (w\<lparr>console := out\<rparr>) outputFile_components (str ''null'') of
         Inl err \<Rightarrow> w\<lparr>console := out @ [(Error, ExportFailed err)]\<rparr>
       | Inr w' \<Rightarrow> w'\<lparr>console := out @ [(Log, ExportComplete (outputFile (cwd w)))]\<rparr>)"
    using run_walk_done[OF walk] by (simp add: JSON_stringify_def)
  have "file_text (root (run w)) outputFile_components = Some (str ''null'')"
    if "writeFileSync w outputFile_components (str ''null'') = Inr w'" for w'
  proof -
    from that have g: "write_granted w"
      and ne: "write_path (root w) outputFile_components (str ''null'') \<noteq> None"
      by (auto simp: writeFileSync_def split: option.splits if_splits)
    from ne obtain es' where es': "write_path (root w) outputFile_components (str ''null'') = Some es'"
      by auto
    with g have "root (run w) = es'"
      unfolding r by (simp add: writeFileSync_def)
    with write_path_text[OF es'] show ?thesis by simp
  qed
  with walk r show ?thesis by blast
qed

theorem nothing_included_writes_null_witness:
  "root_readable ex_no_pages \<and> \<not> any_access_fails (root ex_no_pages) \<and>
   \<not> any_qualifies (root ex_no_pages) \<and>
   (\<exists>w'. writeFileSync ex_no_pages outputFile_components (str ''null'') = Inr w') \<and>
   snd (buildTree (cwd ex_no_pages) [] (root_readable ex_no_pages) (root ex_no_pages)
          (console ex_no_pages @ [(Log, Scanning)])) = Inr None \<and>
   file_text (root (run ex_no_pages)) outputFile_components = Some (str ''null'') \<and>
   root_readable ex_empty_project \<and> \<not> any_access_fails (root ex_empty_project) \<and>
   \<not> any_qualifies (root ex_empty_project) \<and>
   snd (buildTree (cwd ex_empty_project) [] (root_readable ex_empty_project) (root ex_empty_project)
          (console ex_empty_project @ [(Log, Scanning)])) = Inr None"
proof -
  have h: "root_readable ex_no_pages" "\<not> any_access_fails (root ex_no_pages)"
      "\<not> any_qualifies (root ex_no_pages)"
    by (simp_all add: ex_no_pages_def is_page_name_def endsWith_def str_def)
  have w: "\<exists>w'. writeFileSync ex_no_pages outputFile_components (str ''null'') = Inr w'"
    by (simp add: writeFileSync_def ex_no_pages_def outputFile_components_def str_def)
  have e: "root_readable ex_empty_project" "\<not> any_access_fails (root ex_empty_project)"
      "\<not> any_qualifies (root ex_empty_project)"
    by (simp_all add: ex_empty_project_def)
  from nothing_included_writes_null[OF h] w
  have 1: "snd (buildTree (cwd ex_no_pages) [] (root_readable ex_no_pages) (root ex_no_pages)
          (console ex_no_pages @ [(Log, Scanning)])) = Inr None"
    and 2: "file_text (root (run ex_no_pages)) outputFile_components = Some (str ''null'')"
    by auto
  from nothing_included_writes_null[OF e]
  have 3: "snd (buildTree (cwd ex_empty_project) [] (root_readable ex_empty_project)
          (root ex_empty_project) (console ex_empty_project @ [(Log, Scanning)])) = Inr None"
    by auto
  from h w e 1 2 3 show ?thesis by blast
qed

theorem nothing_included_not_written_counterexample:
  "\<not> any_qualifies (root ex_unreadable_page) \<and>
   file_text (root (run ex_unreadable_page)) outputFile_components = None \<and>
   \<not> any_qualifies (root ex_write_refused) \<and>
   file_text (root (run ex_write_refused)) outputFile_components = None"
  by (simp add: ex_unreadable_page_def ex_write_refused_def run_def writeFileSync_def
        outputFile_components_def is_page_name_def path_eval str_def)

subsection \<open>The title extractor\<close>

lemma seq_simps: "seq [] = Empty" "seq (r # rs) = Cat r (seq rs)"
  by (simp_all add: seq_def)

lemma lit_simps: "lit [] = Empty" "lit (x # w) = Cat (Chr (of_char x)) (lit w)"
  by (simp_all add: lit_def seq_def)

lemma rmatch_lit:
  "rmatch True (lit w) (s, c) = (if ci_prefix (str w) s then [(drop (length w) s, c)] else [])"
proof (induction w arbitrary: s)
  case Nil
  then show ?case by (simp add: lit_simps ci_prefix_def str_def)
next
  case (Cons x w)
  show ?case
  proof (cases s)
    case Nil
    then show ?thesis by (simp add: lit_simps ci_prefix_def str_def step1_def)
  next
    case (Cons ch rest)
    with Cons.IH[of rest] show ?thesis
      by (auto simp: lit_simps ci_prefix_def str_def step1_def char_match_def)
  qed
qed

lemma rmatch_opening:
  "rmatch True (lit ''<title>'') (s, c) =
     (if ci_prefix (str ''<title>'') s then [(drop 7 s, c)] else [])"
proof -
  have len: "length ''<title>'' = 7" by simp
  show ?thesis by (rule rmatch_lit[of "''<title>''" s c, unfolded len])
qed

lemma rmatch_closing:
  "rmatch True (lit ''</title>'') (s, c) =
     (if ci_prefix (str ''</title>'') s then [(drop 8 s, c)] else [])"
proof -
  have len: "length ''</title>'' = 8" by simp
  show ?thesis by (rule rmatch_lit[of "''</title>''" s c, unfolded len])
qed

lemma upt_Suc_shift: "[0..<Suc (Suc n)] = 0 # map Suc [0..<Suc n]"
  by (simp only: map_Suc_upt upt_conv_Cons[of 0 "Suc (Suc n)"])

lemma rmatch_lazy_dot:
  "rmatch ic (LazyStar AnyChar) (s, c) =
     map (\<lambda>k. (drop k s, c)) [0..<Suc (length (takeWhile (\<lambda>ch. \<not> is_line_terminator ch) s))]"
proof (induction s)
  case Nil
  then show ?case by (simp add: step1_def)
next
  case (Cons ch rest)
  show ?case
  proof (cases "is_line_terminator ch")
    case True
    then show ?thesis by (simp add: step1_def)
  next
    case False
    then show ?thesis
      using Cons.IH
      by (simp add: step1_def upt_Suc_shift comp_def del: upt_Suc rmatch.simps(8))
         (simp add: step1_def Cons.IH del: upt_Suc)
  qed
qed


lemma concat_map_if: "concat (map (\<lambda>k. if P k then [f k] else []) xs) = map f (filter P xs)"
  by (induction xs) auto

lemma rmatch_Cat_Empty: "rmatch ic (Cat r Empty) st = rmatch ic r st"
proof -
  have "rmatch ic Empty = (\<lambda>st. [st])"
    by (rule ext) simp
  moreover have "concat (map (\<lambda>st. [st]) xs) = xs" for xs :: "mstate list"
    by (induction xs) auto
  ultimately show ?thesis by simp
qed

lemma length_takeWhile_le': "length (takeWhile P xs) \<le> length xs"
  by (induction xs) auto

lemma rmatch_group_lazy_dot:
  "rmatch ic (Group (LazyStar AnyChar)) (s, c) =
     map (\<lambda>k. (drop k s, Some (take k s)))
       [0..<Suc (length (takeWhile (\<lambda>ch. \<not> is_line_terminator ch) s))]"
proof -
  let ?n = "length (takeWhile (\<lambda>ch. \<not> is_line_terminator ch) s)"
  have "length s - length (drop k s) = k" if "k \<in> set [0..<Suc ?n]" for k
    using that length_takeWhile_le'[of "\<lambda>ch. \<not> is_line_terminator ch" s] by auto
  then have "map (\<lambda>k. (drop k s, Some (take (length s - length (drop k s)) s))) [0..<Suc ?n] =
             map (\<lambda>k. (drop k s, Some (take k s))) [0..<Suc ?n]"
    by (intro map_cong) auto
  then show ?thesis
    by (simp add: rmatch_lazy_dot comp_def del: upt_Suc rmatch.simps(8))
qed

lemma title_match:
  "rmatch True title_rx (s, None) =
     (if ci_prefix (str ''<title>'') s
      then map (\<lambda>k. (drop 8 (drop k (drop 7 s)), Some (take k (drop 7 s))))
             (filter (\<lambda>k. ci_prefix (str ''</title>'') (drop k (drop 7 s)))
                [0..<Suc (length (takeWhile (\<lambda>ch. \<not> is_line_terminator ch) (drop 7 s)))])
      else [])"
proof -
  let ?rest = "Cat (Group (LazyStar AnyChar)) (Cat (lit ''</title>'') Empty)"
  let ?n = "\<lambda>s1. length (takeWhile (\<lambda>ch. \<not> is_line_terminator ch) s1)"
  have tail: "rmatch True ?rest (s1, None) =
      map (\<lambda>k. (drop 8 (drop k s1), Some (take k s1)))
        (filter (\<lambda>k. ci_prefix (str ''</title>'') (drop k s1)) [0..<Suc (?n s1)])" for s1
  proof -
    have "rmatch True ?rest (s1, None) =
        concat (map (rmatch True (lit ''</title>''))
                  (map (\<lambda>k. (drop k s1, Some (take k s1))) [0..<Suc (?n s1)]))"
      by (simp only: rmatch.simps(6) rmatch_group_lazy_dot rmatch_Cat_Empty[abs_def])
    also have "\<dots> = concat (map (\<lambda>k. if ci_prefix (str ''</title>'') (drop k s1)
                                     then [(drop 8 (drop k s1), Some (take k s1))] else [])
                              [0..<Suc (?n s1)])"
      by (simp add: comp_def rmatch_closing del: upt_Suc)
    finally show ?thesis
      by (simp only: concat_map_if)
  qed
  have "rmatch True title_rx (s, None) =
      concat (map (rmatch True ?rest) (rmatch True (lit ''<title>'') (s, None)))"
    by (simp add: title_rx_def seq_simps del: rmatch.simps(7,8,10))
  then show ?thesis
    by (simp add: rmatch_opening tail del: upt_Suc rmatch.simps)
qed

lemma find_upt_shift:
  "find P [0..<Suc (Suc n)] = (if P 0 then Some 0 else map_option Suc (find (\<lambda>i. P (Suc i)) [0..<Suc n]))"
proof -
  have "find P (map Suc xs) = map_option Suc (find (\<lambda>i. P (Suc i)) xs)" for xs
    by (induction xs) auto
  then show ?thesis
    by (simp add: upt_Suc_shift del: upt_Suc)
qed

lemma regexp_exec_find:
  "regexp_exec ic r s =
     (case find (\<lambda>i. rmatch ic r (drop i s, None) \<noteq> []) [0..<Suc (length s)] of
        None \<Rightarrow> None
      | Some i \<Rightarrow> Some (hd (rmatch ic r (drop i s, None))))"
proof (induction s)
  case Nil
  then show ?case by (simp split: list.splits)
next
  case (Cons a s)
  show ?case
  proof (cases "rmatch ic r (a # s, None)")
    case Nil
    then show ?thesis
      using Cons.IH
      by (simp add: find_upt_shift del: upt_Suc regexp_exec.simps)
         (subst regexp_exec.simps, simp split: option.splits del: upt_Suc regexp_exec.simps)
  next
    case (Cons st sts)
    then show ?thesis
      by (simp add: find_upt_shift del: upt_Suc)
  qed
qed


lemma find_filter_hd: "find P xs = (case filter P xs of [] \<Rightarrow> None | x # _ \<Rightarrow> Some x)"
  by (induction xs) auto

lemma find_upt_Some:
  "find P [0..<m] = Some j \<longleftrightarrow> j < m \<and> P j \<and> (\<forall>j'<j. \<not> P j')"
  by (auto simp: find_Some_iff)

lemma no_terminator_take:
  "k \<le> length xs \<Longrightarrow>
     (\<not> list_ex P (take k xs)) = (k \<le> length (takeWhile (\<lambda>x. \<not> P x) xs))"
proof (induction xs arbitrary: k)
  case Nil
  then show ?case by simp
next
  case (Cons x xs)
  then show ?case by (cases k) auto
qed

lemma opening_length:
  assumes "opening_at html i"
  shows "i + 7 \<le> length html"
proof -
  have "length (str ''<title>'') = 7"
    by (simp add: str_def)
  moreover have "length (str ''<title>'') \<le> length (drop i html)"
    using assms by (simp only: opening_at_def ci_prefix_def)
  ultimately show ?thesis by simp
qed

lemma title_pair_offset:
  assumes "opening_at html i"
  shows "title_pair html i (i + 7 + k) \<longleftrightarrow>
           k \<le> length (takeWhile (\<lambda>ch. \<not> is_line_terminator ch) (drop 7 (drop i html))) \<and>
           ci_prefix (str ''</title>'') (drop k (drop 7 (drop i html)))"
proof -
  let ?s1 = "drop 7 (drop i html)"
  have s1: "?s1 = drop (i + 7) html"
    by (simp add: add.commute)
  have cl: "closing_at html (i + 7 + k) = ci_prefix (str ''</title>'') (drop k ?s1)"
    by (simp add: closing_at_def add.commute add.left_commute)
  have bt: "between html i (i + 7 + k) = take k ?s1"
    by (simp add: between_def add.commute)
  show ?thesis
  proof (cases "k \<le> length ?s1")
    case True
    then show ?thesis
      using assms no_terminator_take[OF True, of is_line_terminator]
      by (auto simp: title_pair_def cl bt)
  next
    case False
    then have "\<not> ci_prefix (str ''</title>'') (drop k ?s1)"
      by (simp add: ci_prefix_def str_def)
    then show ?thesis
      by (simp add: title_pair_def cl)
  qed
qed

lemma title_match_nonempty:
  "rmatch True title_rx (drop i html, None) \<noteq> [] \<longleftrightarrow>
     list_ex (title_pair html i) [0..<Suc (length html)]"
proof (cases "opening_at html i")
  case False
  then show ?thesis
    by (simp add: title_match title_pair_def list_ex_iff opening_at_def del: upt_Suc)
next
  case True
  let ?s1 = "drop 7 (drop i html)"
  let ?n = "length (takeWhile (\<lambda>ch. \<not> is_line_terminator ch) ?s1)"
  let ?P = "\<lambda>k. ci_prefix (str ''</title>'') (drop k ?s1)"
  have len: "i + 7 \<le> length html"
    using True by (rule opening_length)
  have n: "?n \<le> length html - (i + 7)"
    using length_takeWhile_le'[of "\<lambda>ch. \<not> is_line_terminator ch" ?s1] by simp
  have "rmatch True title_rx (drop i html, None) \<noteq> [] \<longleftrightarrow> (\<exists>k\<le>?n. ?P k)"
    using True
    by (auto simp: title_match opening_at_def filter_empty_conv less_Suc_eq_le simp del: upt_Suc)
  also have "\<dots> \<longleftrightarrow> (\<exists>j\<le>length html. title_pair html i j)"
  proof
    assume "\<exists>k\<le>?n. ?P k"
    then obtain k where k: "k \<le> ?n" "?P k" by blast
    then have "title_pair html i (i + 7 + k)"
      using title_pair_offset[OF True, of k] by simp
    moreover have "i + 7 + k \<le> length html"
      using k(1) n len by simp
    ultimately show "\<exists>j\<le>length html. title_pair html i j" by blast
  next
    assume "\<exists>j\<le>length html. title_pair html i j"
    then obtain j where j: "j \<le> length html" "title_pair html i j" by blast
    then have "i + 7 \<le> j" by (simp add: title_pair_def)
    then have "j = i + 7 + (j - (i + 7))" by simp
    then have "title_pair html i (i + 7 + (j - (i + 7)))" using j(2) by simp
    then show "\<exists>k\<le>?n. ?P k"
      using title_pair_offset[OF True, of "j - (i + 7)"] by blast
  qed
  finally show ?thesis
    by (auto simp: list_ex_iff less_Suc_eq_le simp del: upt_Suc)
qed

lemma title_match_first:
  assumes "rmatch True title_rx (drop i html, None) \<noteq> []"
  shows "\<exists>k. snd (hd (rmatch True title_rx (drop i html, None))) = Some (take k (drop (i + 7) html)) \<and>
             find (title_pair html i) [0..<Suc (length html)] = Some (i + 7 + k)"
proof -
  let ?s1 = "drop 7 (drop i html)"
  let ?n = "length (takeWhile (\<lambda>ch. \<not> is_line_terminator ch) ?s1)"
  let ?P = "\<lambda>k. ci_prefix (str ''</title>'') (drop k ?s1)"
  let ?ks = "filter ?P [0..<Suc ?n]"
  have op: "opening_at html i"
    using assms by (auto simp: title_match opening_at_def split: if_splits simp del: upt_Suc)
  have ne: "?ks \<noteq> []"
    using assms op by (auto simp: title_match opening_at_def simp del: upt_Suc)
  define k where "k = hd ?ks"
  have "find ?P [0..<Suc ?n] = Some k"
    using ne by (cases ?ks) (auto simp: find_filter_hd k_def simp del: upt_Suc)
  then have k: "k \<le> ?n" "?P k" "\<forall>k'<k. \<not> ?P k'"
    unfolding find_upt_Some by auto
  have len: "i + 7 \<le> length html"
    using op by (rule opening_length)
  have n: "?n \<le> length html - (i + 7)"
    using length_takeWhile_le'[of "\<lambda>ch. \<not> is_line_terminator ch" ?s1] by simp
  have hd: "snd (hd (rmatch True title_rx (drop i html, None))) = Some (take k (drop (i + 7) html))"
    using op ne
    by (cases ?ks) (auto simp: title_match opening_at_def k_def add.commute simp del: upt_Suc)
  have "find (title_pair html i) [0..<Suc (length html)] = Some (i + 7 + k)"
    unfolding find_upt_Some
  proof (intro conjI allI impI)
    show "i + 7 + k < Suc (length html)"
      using k(1) n len by simp
    show "title_pair html i (i + 7 + k)"
      using title_pair_offset[OF op, of k] k by simp
  next
    fix j assume j: "j < i + 7 + k"
    show "\<not> title_pair html i j"
    proof (cases "i + 7 \<le> j")
      case False
      then show ?thesis by (simp add: title_pair_def)
    next
      case True
      then have eq: "j = i + 7 + (j - (i + 7))" and lt: "j - (i + 7) < k"
        using j by simp_all
      have "\<not> title_pair html i (i + 7 + (j - (i + 7)))"
        using title_pair_offset[OF op, of "j - (i + 7)"] k(3) lt by blast
      with eq show ?thesis by simp
    qed
  qed
  with hd show ?thesis by blast
qed

lemma extractTitle_spec: "extractTitle html = spec_title html"
proof -
  let ?range = "[0..<Suc (length html)]"
  let ?M = "\<lambda>i. rmatch True title_rx (drop i html, None)"
  have same: "find (\<lambda>i. ?M i \<noteq> []) ?range = find (\<lambda>i. list_ex (title_pair html i) ?range) ?range"
    by (simp only: title_match_nonempty)
  show ?thesis
  proof (cases "find (\<lambda>i. ?M i \<noteq> []) ?range")
    case None
    then show ?thesis
      using same
      by (simp add: extractTitle_def regexp_exec_find spec_title_def first_title_pair_def
               del: upt_Suc regexp_exec.simps)
  next
    case (Some i)
    then have "?M i \<noteq> []"
      by (auto simp: find_Some_iff simp del: upt_Suc)
    from title_match_first[OF this] obtain k where
      k: "snd (hd (?M i)) = Some (take k (drop (i + 7) html))"
         "find (title_pair html i) ?range = Some (i + 7 + k)"
      by blast
    show ?thesis
      using Some same k
      by (simp add: extractTitle_def regexp_exec_find spec_title_def first_title_pair_def between_def
               del: upt_Suc regexp_exec.simps)
  qed
qed


text \<open>
  Claim C6. For every text, \<open>extractTitle\<close> returns the trimmed text between the
  first opening and the first closing title delimiter of the first title pair (delimiters
  matched without regard to letter case, nothing between them that is a line terminator),
  and \<^verbatim>\<open>null\<close> when the text has no such pair. In particular a text whose first
  title pair is \<^verbatim>\<open><TITLE>  Home  </TITLE>\<close> gives \<^verbatim>\<open>Home\<close>.
\<close>

theorem extractTitle_first_title_pair:
  "extractTitle html = spec_title html \<and>
   (first_title_pair (pre @ str ''<TITLE>  Home  </TITLE>'' @ post) =
      Some (length pre, length pre + 15) \<longrightarrow>
    extractTitle (pre @ str ''<TITLE>  Home  </TITLE>'' @ post) = Some (str ''Home''))"
proof -
  have "between (pre @ str ''<TITLE>  Home  </TITLE>'' @ post) (length pre) (length pre + 15) =
          str ''  Home  ''"
    by (simp add: between_def str_def)
  moreover have "trim (str ''  Home  '') = str ''Home''"
    by (simp add: trim_def str_def is_white_space_def is_line_terminator_def)
  ultimately show ?thesis
    by (simp add: extractTitle_spec spec_title_def)
qed

theorem extractTitle_first_title_pair_witness:
  "first_title_pair ex_title_text = Some (3, 18) \<and>
   spec_title ex_title_text = Some (str ''Home'') \<and>
   extractTitle ex_title_text = Some (str ''Home'') \<and>
   extractTitle (str ''<title>a'' @ [0x0A] @ str ''</title>'') = None"
proof -
  have f: "first_title_pair (str ''<p>'' @ str ''<TITLE>  Home  </TITLE>'' @ str ''<b>'') =
             Some (length (str ''<p>''), length (str ''<p>'') + 15)"
    by (simp add: first_title_pair_def title_pair_def opening_at_def closing_at_def between_def
          ci_prefix_def canonicalize_def is_line_terminator_def str_def)
  have n: "spec_title (str ''<title>a'' @ [0x0A] @ str ''</title>'') = None"
    by (simp add: spec_title_def first_title_pair_def title_pair_def opening_at_def closing_at_def
          between_def ci_prefix_def canonicalize_def is_line_terminator_def str_def)
  have e1: "extractTitle (str ''<p>'' @ str ''<TITLE>  Home  </TITLE>'' @ str ''<b>'') =
              Some (str ''Home'')"
    using extractTitle_first_title_pair[of "[]" "str ''<p>''" "str ''<b>''"] f by blast
  have s1: "spec_title (str ''<p>'' @ str ''<TITLE>  Home  </TITLE>'' @ str ''<b>'') =
              Some (str ''Home'')"
    using extractTitle_first_title_pair[of "str ''<p>'' @ str ''<TITLE>  Home  </TITLE>'' @ str ''<b>''"
            "[]" "[]"] e1
    by metis
  have e2: "extractTitle (str ''<title>a'' @ [0x0A] @ str ''</title>'') = None"
    using extractTitle_first_title_pair[of "str ''<title>a'' @ [0x0A] @ str ''</title>''" "[]" "[]"] n
    by metis
  have f': "first_title_pair ex_title_text = Some (3, 18)"
    using f by (simp add: ex_title_text_def str_def)
  from f' e1 s1 e2 show ?thesis by (simp add: ex_title_text_def)
qed

subsection \<open>The sitemap classifier\<close>

lemma lit_accept:
  assumes "ci_equal w' (str w)"
  shows "(rest, c) \<in> set (rmatch True (lit w) (w' @ rest, c))"
proof -
  have "length (map canonicalize w') = length (map canonicalize (str w))"
    using assms by (simp only: ci_equal_def)
  then have len: "length w' = length w"
    by (simp add: str_def)
  then have "ci_prefix (str w) (w' @ rest)"
    using assms by (simp add: ci_prefix_def ci_equal_def str_def)
  then show ?thesis
    using len by (simp add: rmatch_lit)
qed

lemma star_space_accept:
  "list_all is_white_space ws \<Longrightarrow> (rest, c) \<in> set (rmatch ic (Star Space) (ws @ rest, c))"
proof (induction ws)
  case Nil
  show ?case
    by (subst rmatch.simps(7)) (simp del: rmatch.simps)
next
  case (Cons x ws)
  have step: "rmatch ic Space (x # ws @ rest, c) = [(ws @ rest, c)]"
    using Cons.prems by (simp add: step1_def)
  have "rmatch ic (Star Space) (x # ws @ rest, c) =
          rmatch ic (Star Space) (ws @ rest, c) @ [(x # ws @ rest, c)]"
    by (subst rmatch.simps(7)) (simp add: step del: rmatch.simps)
  then show ?case
    using Cons.IH Cons.prems by (simp del: rmatch.simps)
qed

lemma plus_space_accept:
  assumes "ws \<noteq> []" "list_all is_white_space ws"
  shows "(rest, c) \<in> set (rmatch ic (Plus Space) (ws @ rest, c))"
proof -
  obtain x ws' where ws: "ws = x # ws'"
    using assms(1) by (cases ws) auto
  have step: "rmatch ic Space (x # ws' @ rest, c) = [(ws' @ rest, c)]"
    using assms(2) ws by (simp add: step1_def)
  have "(rest, c) \<in> set (rmatch ic (Star Space) (ws' @ rest, c))"
    using assms(2) ws by (simp add: star_space_accept del: rmatch.simps)
  then show ?thesis
    unfolding Plus_def ws by (simp add: step del: rmatch.simps(3,7))
qed

lemma quote_accept:
  "q \<in> set quotes \<Longrightarrow> (rest, c) \<in> set (rmatch True (OneOf quotes) (q # rest, c))"
  by (auto simp: step1_def list_ex_iff char_match_def)

lemma opt_slash_accept:
  "(rest, c) \<in> set (rmatch True (Opt (Chr 0x2F)) ((if b then str ''/'' else []) @ rest, c))"
  by (simp add: step1_def char_match_def str_def)

lemma chr_accept: "(rest, c) \<in> set (rmatch True (Chr a) (a # rest, c))"
  by (simp add: step1_def char_match_def)

lemma seq_accept:
  "st1 \<in> set (rmatch ic r st0) \<Longrightarrow> st2 \<in> set (rmatch ic (seq rs) st1) \<Longrightarrow>
     st2 \<in> set (rmatch ic (seq (r # rs)) st0)"
  by (auto simp: seq_simps simp del: rmatch.simps(1,2,3,4,5,7,8,9,10))

lemma sitemap_rx_accepts:
  assumes "is_directive v d"
  shows "(post, None) \<in> set (rmatch True (sitemap_rx v) (directive_text d @ post, None))"
proof -
  let ?t13 = "str ''>'' @ post"
  let ?t12 = "(if d_slash d then str ''/'' else []) @ ?t13"
  let ?t11 = "d_space3 d @ ?t12"
  let ?t10 = "d_quote4 d # ?t11"
  let ?t9 = "d_content d @ ?t10"
  let ?t8 = "d_quote3 d # ?t9"
  let ?t7 = "d_content_attr d @ ?t8"
  let ?t6 = "d_space2 d @ ?t7"
  let ?t5 = "d_quote2 d # ?t6"
  let ?t4 = "d_name d @ ?t5"
  let ?t3 = "d_quote1 d # ?t4"
  let ?t2 = "d_name_attr d @ ?t3"
  let ?t1 = "d_space1 d @ ?t2"
  let ?t0 = "d_tag d @ ?t1"
  note d = assms[unfolded is_directive_def]
  have a14: "(post, None) \<in> set (rmatch True (seq []) (post, None))"
    by (simp add: seq_simps)
  have a13: "(post, None) \<in> set (rmatch True (seq [Chr 0x3E]) (?t13, None))"
    using seq_accept[OF chr_accept[of post None "0x3E"] a14] by (simp add: str_def)
  note a12 = seq_accept[OF opt_slash_accept[of ?t13 None "d_slash d"] a13]
  have s3: "list_all is_white_space (d_space3 d)" using d by simp
  note a11 = seq_accept[OF star_space_accept[OF s3, of ?t12 None True] a12]
  have q4: "d_quote4 d \<in> set quotes" using d by simp
  note a10 = seq_accept[OF quote_accept[OF q4, of ?t11 None] a11]
  have v: "ci_equal (d_content d) (str v)" using d by simp
  note a9 = seq_accept[OF lit_accept[OF v, of ?t10 None] a10]
  have q3: "d_quote3 d \<in> set quotes" using d by simp
  note a8 = seq_accept[OF quote_accept[OF q3, of ?t9 None] a9]
  have ca: "ci_equal (d_content_attr d) (str ''content='')" using d by simp
  note a7 = seq_accept[OF lit_accept[OF ca, of ?t8 None] a8]
  have s2: "d_space2 d \<noteq> []" "list_all is_white_space (d_space2 d)" using d by simp_all
  note a6 = seq_accept[OF plus_space_accept[OF s2, of ?t7 None True] a7]
  have q2: "d_quote2 d \<in> set quotes" using d by simp
  note a5 = seq_accept[OF quote_accept[OF q2, of ?t6 None] a6]
  have nm: "ci_equal (d_name d) (str ''sitemap'')" using d by simp
  note a4 = seq_accept[OF lit_accept[OF nm, of ?t5 None] a5]
  have q1: "d_quote1 d \<in> set quotes" using d by simp
  note a3 = seq_accept[OF quote_accept[OF q1, of ?t4 None] a4]
  have na: "ci_equal (d_name_attr d) (str ''name='')" using d by simp
  note a2 = seq_accept[OF lit_accept[OF na, of ?t3 None] a3]
  have s1: "d_space1 d \<noteq> []" "list_all is_white_space (d_space1 d)" using d by simp_all
  note a1 = seq_accept[OF plus_space_accept[OF s1, of ?t2 None True] a2]
  have tg: "ci_equal (d_tag d) (str ''<meta'')" using d by simp
  note a0 = seq_accept[OF lit_accept[OF tg, of ?t1 None] a1]
  have "directive_text d @ post = ?t0"
    by (simp add: directive_text_def)
  with a0 show ?thesis
    by (simp only: sitemap_rx_def)
qed

lemma regexp_test_append:
  "rmatch ic r (s, None) \<noteq> [] \<Longrightarrow> regexp_test ic r (pre @ s)"
proof (induction pre)
  case Nil
  then show ?case by (cases "rmatch ic r (s, None)") (simp_all add: regexp_test_def)
next
  case (Cons a pre)
  then show ?case
    by (cases "rmatch ic r (a # pre @ s, None)") (simp_all add: regexp_test_def)
qed

lemma directive_found:
  assumes "is_directive v d"
  shows "regexp_test True (sitemap_rx v) (pre @ directive_text d @ post)"
proof -
  have "rmatch True (sitemap_rx v) (directive_text d @ post, None) \<noteq> []"
    using sitemap_rx_accepts[OF assms, of post] by auto
  then show ?thesis by (rule regexp_test_append)
qed

text \<open>
  Claim C2, as amended. A text that contains a sitemap directive with the name attribute
  before the content attribute is recognised, whatever the letter case, the white space
  and the quotes, with or without the closing slash: a directive with content
  \<^verbatim>\<open>include\<close> makes the page Include, one with content \<^verbatim>\<open>exclude\<close> sets the
  exclude flag (the page is Exclude, or Include when an include directive is there too).
  As stated the claim fails: with the content attribute first the directive is not
  recognised, and the page is Unspecified.
\<close>

theorem name_first_directive_recognised:
  "(is_directive ''include'' d \<longrightarrow>
      include (checkSitemapMeta (pre @ directive_text d @ post)) \<and>
      classify (pre @ directive_text d @ post) = Include) \<and>
   (is_directive ''exclude'' d \<longrightarrow>
      exclude (checkSitemapMeta (pre @ directive_text d @ post)) \<and>
      classify (pre @ directive_text d @ post) \<noteq> Unspecified)"
  using directive_found[of "''include''" d pre post] directive_found[of "''exclude''" d pre post]
  by (simp add: checkSitemapMeta_def classify_def)

theorem name_first_directive_recognised_witness:
  "is_directive ''include'' ex_directive \<and>
   directive_text ex_directive = str ''<META '' @ [0x0A] @ str ''Name='SiteMap\"'' @ [0x09] @
      str ''CONTENT=\"Include' />'' \<and>
   classify (str ''<head>'' @ directive_text ex_directive @ str ''</head>'') = Include \<and>
   is_directive ''exclude'' ex_directive_exclude \<and>
   directive_text ex_directive_exclude = str ''<meta name=\"sitemap\" content=\"exclude\">'' \<and>
   exclude (checkSitemapMeta (directive_text ex_directive_exclude))"
proof -
  have h: "is_directive ''include'' ex_directive"
    by (simp add: is_directive_def ex_directive_def ci_equal_def canonicalize_def quotes_def
          is_white_space_def is_line_terminator_def str_def)
  have t: "directive_text ex_directive = str ''<META '' @ [0x0A] @ str ''Name='SiteMap\"'' @ [0x09] @
      str ''CONTENT=\"Include' />''"
    by (simp add: directive_text_def ex_directive_def str_def)
  have h': "is_directive ''exclude'' ex_directive_exclude"
    by (simp add: is_directive_def ex_directive_exclude_def ci_equal_def quotes_def
          is_white_space_def str_def)
  have t': "directive_text ex_directive_exclude = str ''<meta name=\"sitemap\" content=\"exclude\">''"
    by (simp add: directive_text_def ex_directive_exclude_def str_def)
  have "exclude (checkSitemapMeta (directive_text ex_directive_exclude))"
    using name_first_directive_recognised[of ex_directive_exclude "[]" "[]"] h' by simp
  with name_first_directive_recognised[of ex_directive "str ''<head>''" "str ''</head>''"] h t h' t'
  show ?thesis by blast
qed

theorem content_first_directive_counterexample:
  "classify ex_content_first = Unspecified"
  by (simp add: classify_def checkSitemapMeta_def ex_content_first_def regex_eval)

subsection \<open>The tie-break\<close>

text \<open>
  Claim C3, as amended. For every page text in which both the include directive and the
  exclude directive are present, each with the name attribute written before the content
  attribute, the tree builder treats the page as Include: the loop pushes a leaf node for
  the page, and when no filesystem access of the walk fails the tree the walk returns has a
  leaf node for it, with \<^verbatim>\<open>sitemap: true\<close>. As stated the claim fails: with the
  include directive written content first and the exclude directive name first, the page
  is Exclude and has no node.
\<close>

theorem both_directives_mean_include:
  assumes "is_directive ''include'' d1" and "is_directive ''exclude'' d2"
      and "pf_text f = a1 @ directive_text d1 @ b1"
      and "pf_text f = a2 @ directive_text d2 @ b2"
  shows "classify (pf_text f) = Include \<and>
         (is_page_name (pf_name f) \<longrightarrow>
            scan_entries cp rp name (File (pf_name f) (Some (pf_text f)) # rest) children out =
            scan_entries cp rp name rest
              (children @
                 [Page (pf_name f) (replace_backslashes (path_join [rp, name, pf_name f]))
                    (or_else (extractTitle (pf_text f)) (pf_name f)) True])
              (if falsy (extractTitle (pf_text f))
               then out @ [(Warn, TitleMissing (path_join [cp, pf_name f]))] else out)) \<and>
         (readable \<and> \<not> any_access_fails es \<and> f \<in> set (page_files es) \<longrightarrow>
            (\<exists>out' t p ttl. buildTree cp rp readable es out = (out', Inr (Some t)) \<and>
               Page (pf_name f) p ttl True \<in> set (leaves t)))"
proof -
  have inc: "include (checkSitemapMeta (pf_text f))"
    using directive_found[OF assms(1), of a1 b1] assms(3) by (simp add: checkSitemapMeta_def)
  then have c: "classify (pf_text f) = Include"
    by (simp add: classify_Include)
  have step: "scan_entries cp rp name (File (pf_name f) (Some (pf_text f)) # rest) children out =
            scan_entries cp rp name rest
              (children @
                 [Page (pf_name f) (replace_backslashes (path_join [rp, name, pf_name f]))
                    (or_else (extractTitle (pf_text f)) (pf_name f)) True])
              (if falsy (extractTitle (pf_text f))
               then out @ [(Warn, TitleMissing (path_join [cp, pf_name f]))] else out)"
    if "is_page_name (pf_name f)"
    using that inc by (simp add: Let_def is_page_name_def)
  have "\<exists>out' t p ttl. buildTree cp rp readable es out = (out', Inr (Some t)) \<and>
               Page (pf_name f) p ttl True \<in> set (leaves t)"
    if "readable" "\<not> any_access_fails es" "f \<in> set (page_files es)"
    using walk_has_leaf[OF that, of cp rp out] c by (auto simp: included_def)
  with c step show ?thesis by blast
qed

theorem both_directives_mean_include_witness:
  "is_directive ''include'' ex_include_tag \<and> is_directive ''exclude'' ex_exclude_tag \<and>
   ex_both = directive_text ex_include_tag @ directive_text ex_exclude_tag \<and>
   classify ex_both = Include \<and>
   \<not> any_access_fails ex_site \<and>
   buildTree (str ''/home/u/site'') [] True ex_site [] = (ex_console, Inr (Some ex_tree)) \<and>
   (\<exists>p ttl. Page (str ''z.html'') p ttl True \<in> set (leaves ex_tree))"
proof -
  let ?f = "\<lparr>pf_dirs = [str ''x'', str ''y''], pf_name = str ''z.html'', pf_text = ex_both\<rparr>"
  have i: "is_directive ''include'' ex_include_tag"
    by (simp add: is_directive_def ex_include_tag_def ci_equal_def quotes_def
          is_white_space_def str_def)
  have e: "is_directive ''exclude'' ex_exclude_tag"
    by (simp add: is_directive_def ex_exclude_tag_def ci_equal_def canonicalize_def quotes_def
          is_white_space_def str_def)
  have t: "ex_both = directive_text ex_include_tag @ directive_text ex_exclude_tag"
    by (simp add: ex_both_def directive_text_def ex_include_tag_def ex_exclude_tag_def str_def)
  have t1: "pf_text ?f = [] @ directive_text ex_include_tag @ directive_text ex_exclude_tag"
    and t2: "pf_text ?f = directive_text ex_include_tag @ directive_text ex_exclude_tag @ []"
    using t by simp_all
  note main = both_directives_mean_include[OF i e t1 t2,
      of "str ''/home/u/site''" "[]" "[]" "[]" "[]" "[]" True ex_site]
  from main have "classify ex_both = Include" by simp
  moreover from main ex_site_readable ex_site_both ex_site_walk
  have "\<exists>p ttl. Page (str ''z.html'') p ttl True \<in> set (leaves ex_tree)" by simp
  ultimately show ?thesis
    using i e t ex_site_readable ex_site_walk by blast
qed

theorem both_directives_content_first_counterexample:
  "classify ex_mixed = Exclude \<and>
   buildTree (str ''/r'') [] True [File (str ''p.html'') (Some ex_mixed)] [] =
     ([(Log, Excluded (str ''/r/p.html''))], Inr None)"
proof -
  have "checkSitemapMeta ex_mixed = \<lparr>include = False, exclude = True\<rparr>"
    by (simp add: checkSitemapMeta_def ex_mixed_def regex_eval)
  then show ?thesis
    by (simp add: classify_def path_eval str_def)
qed

end
